theory Spec2Isabelle
  imports Main "HOL-Library.Word"
begin

section \<open>The queue of \<^verbatim>\<open>SPSCQueue.h\<close>\<close>

text \<open>
  \<^verbatim>\<open>rigtorp::SPSCQueue<T>\<close> is a ring buffer with two indices. The model fixes
  \<^verbatim>\<open>size_t\<close> at 64 bits (LP64); \<^verbatim>\<open>ssize_t\<close> is the signed reading of the same
  word. Arithmetic on \<^verbatim>\<open>size_t\<close> wraps, as \<open>+\<close>, \<open>-\<close> and \<open>*\<close> on words do.
  The template parameter enters the code only through \<^verbatim>\<open>sizeof(T)\<close>, which every
  operation of the model takes as its first argument \<open>sizeof_T\<close>.
\<close>

type_synonym size_t = "64 word"

text \<open>
  What ends an operation early: the two exceptions of the constructor
  (\<^verbatim>\<open>std::invalid_argument\<close>, the spec's InvalidCapacity, and \<^verbatim>\<open>std::bad_alloc\<close>, the spec's
  AllocationFailure) and a failed \<^verbatim>\<open>assert\<close>.
\<close>

datatype failure = invalid_argument | bad_alloc | assertion_failed

text \<open>
  The effects on elements and storage, in the order they happen: placement \<^verbatim>\<open>new\<close> of a
  value in a physical slot, the call of \<^verbatim>\<open>~T()\<close> on a physical slot (with the object that
  was there, \<open>None\<close> when the slot held no live object), and \<^verbatim>\<open>std::free(slots_)\<close>.
\<close>

datatype 'a event = Construct size_t 'a | Destroy size_t "'a option" | Free

text \<open>
  The members of the class (\<^verbatim>\<open>capacity_\<close>, \<^verbatim>\<open>slots_\<close>, \<^verbatim>\<open>head_\<close>, \<^verbatim>\<open>tail_\<close>, written
  with the suffix \<open>_m\<close>). \<open>slots_m\<close> is the memory behind the pointer: physical slot
  index to the live object there. \<open>events\<close> is the history of effects so far.
\<close>

record 'a SPSCQueue =
  capacity_m :: size_t
  slots_m :: "size_t \<Rightarrow> 'a option"
  head_m :: size_t
  tail_m :: size_t
  events :: "'a event list"

definition kCacheLineSize :: size_t where
  "kCacheLineSize = 128"

definition kPadding :: "size_t \<Rightarrow> size_t" where
  "kPadding sizeof_T = (kCacheLineSize - 1) div sizeof_T + 1"

text \<open>
  The constructor. \<open>malloc\<close> is the allocator's answer to a request of that many bytes:
  whether the block returned is non-null. The request is made in the member initialisers,
  before the capacity is checked. The two \<^verbatim>\<open>assert\<close>s of the body are about alignment and
  the distance between the two members and are not modelled.
\<close>

definition SPSCQueue_ctor ::
  "size_t \<Rightarrow> (size_t \<Rightarrow> bool) \<Rightarrow> size_t \<Rightarrow> failure + 'a SPSCQueue" where
  "SPSCQueue_ctor sizeof_T malloc capacity =
     (let slots = malloc (sizeof_T * (capacity + 2 * kPadding sizeof_T)) in
      if capacity < 2 then Inl invalid_argument
      else if \<not> slots then Inl bad_alloc
      else Inr \<lparr>capacity_m = capacity, slots_m = (\<lambda>_. None), head_m = 0, tail_m = 0,
                events = []\<rparr>)"

text \<open>
  \<^verbatim>\<open>emplace\<close> spins while the queue is full. Run on its own, with no consumer moving
  \<open>tail_m\<close> in between, the loop either falls through at once or never ends; not returning
  is the value \<open>None\<close>.
\<close>

partial_function (option) emplace_spin :: "'a SPSCQueue \<Rightarrow> size_t \<Rightarrow> unit option" where
  "emplace_spin q nextHead =
     (if nextHead = tail_m q then emplace_spin q nextHead else Some ())"

definition emplace :: "size_t \<Rightarrow> 'a \<Rightarrow> 'a SPSCQueue \<Rightarrow> 'a SPSCQueue option" where
  "emplace sizeof_T v q =
     (let head = head_m q;
          nextHead = (head + 1) mod capacity_m q in
      case emplace_spin q nextHead of
        None \<Rightarrow> None
      | Some _ \<Rightarrow>
          Some (q\<lparr>slots_m := (slots_m q)(head + kPadding sizeof_T \<mapsto> v),
                   head_m := nextHead,
                   events := events q @ [Construct (head + kPadding sizeof_T) v]\<rparr>))"

definition try_emplace :: "size_t \<Rightarrow> 'a \<Rightarrow> 'a SPSCQueue \<Rightarrow> bool \<times> 'a SPSCQueue" where
  "try_emplace sizeof_T v q =
     (let head = head_m q;
          nextHead = (head + 1) mod capacity_m q in
      if nextHead = tail_m q then (False, q)
      else (True,
            q\<lparr>slots_m := (slots_m q)(head + kPadding sizeof_T \<mapsto> v),
              head_m := nextHead,
              events := events q @ [Construct (head + kPadding sizeof_T) v]\<rparr>))"

definition push :: "size_t \<Rightarrow> 'a \<Rightarrow> 'a SPSCQueue \<Rightarrow> 'a SPSCQueue option" where
  "push sizeof_T v q = emplace sizeof_T v q"

definition try_push :: "size_t \<Rightarrow> 'a \<Rightarrow> 'a SPSCQueue \<Rightarrow> bool \<times> 'a SPSCQueue" where
  "try_push sizeof_T v q = try_emplace sizeof_T v q"

text \<open>
  \<^verbatim>\<open>front\<close> returns a pointer into \<open>slots_m\<close>, here the physical slot index, or
  \<^verbatim>\<open>nullptr\<close>, here \<open>None\<close>. It is not a \<^verbatim>\<open>const\<close> member, so the model returns the state
  as well.
\<close>

definition front :: "size_t \<Rightarrow> 'a SPSCQueue \<Rightarrow> size_t option \<times> 'a SPSCQueue" where
  "front sizeof_T q =
     (let tail = tail_m q in
      if head_m q = tail then (None, q)
      else (Some (tail + kPadding sizeof_T), q))"

text \<open>\<^verbatim>\<open>pop\<close>, with the \<^verbatim>\<open>assert\<close> compiled in.\<close>

definition pop :: "size_t \<Rightarrow> 'a SPSCQueue \<Rightarrow> failure + 'a SPSCQueue" where
  "pop sizeof_T q =
     (let tail = tail_m q in
      if \<not> (head_m q \<noteq> tail) then Inl assertion_failed
      else
        let destroyed = Destroy (tail + kPadding sizeof_T) (slots_m q (tail + kPadding sizeof_T));
            nextTail = (tail + 1) mod capacity_m q in
        Inr (q\<lparr>slots_m := (slots_m q)(tail + kPadding sizeof_T := None),
                tail_m := nextTail,
                events := events q @ [destroyed]\<rparr>))"

text \<open>
  \<^verbatim>\<open>size\<close>: the difference is taken in \<^verbatim>\<open>size_t\<close> and read as \<^verbatim>\<open>ssize_t\<close>; the
  test for a negative difference is on that signed reading.
\<close>

definition size_q :: "'a SPSCQueue \<Rightarrow> size_t" where
  "size_q q =
     (let diff = head_m q - tail_m q in
      if sint diff < 0 then diff + capacity_m q else diff)"

definition empty_q :: "'a SPSCQueue \<Rightarrow> bool" where
  "empty_q q = (size_q q = 0)"

definition capacity :: "'a SPSCQueue \<Rightarrow> size_t" where
  "capacity q = capacity_m q"

text \<open>
  The destructor: \<^verbatim>\<open>while (front()) pop();\<close> and then \<^verbatim>\<open>std::free(slots_)\<close>. The loop
  is not bounded by anything in the code, so it is a partial function; a failed \<^verbatim>\<open>assert\<close>
  inside \<^verbatim>\<open>pop\<close> ends it.
\<close>

partial_function (option) drain :: "size_t \<Rightarrow> 'a SPSCQueue \<Rightarrow> (failure + 'a SPSCQueue) option" where
  "drain sizeof_T q =
     (case front sizeof_T q of
        (None, q1) \<Rightarrow> Some (Inr q1)
      | (Some p, q1) \<Rightarrow>
          (case pop sizeof_T q1 of
             Inl e \<Rightarrow> Some (Inl e)
           | Inr q2 \<Rightarrow> drain sizeof_T q2))"

definition SPSCQueue_dtor :: "size_t \<Rightarrow> 'a SPSCQueue \<Rightarrow> (failure + 'a SPSCQueue) option" where
  "SPSCQueue_dtor sizeof_T q =
     (case drain sizeof_T q of
        None \<Rightarrow> None
      | Some (Inl e) \<Rightarrow> Some (Inl e)
      | Some (Inr q') \<Rightarrow> Some (Inr (q'\<lparr>events := events q' @ [Free]\<rparr>)))"

section \<open>Reading a state\<close>

text \<open>
  The logical indices from \<open>t\<close> up to, not including, \<open>h\<close> in a ring of \<open>C\<close> places:
  the order in which the consumer meets them.
\<close>

definition ring :: "nat \<Rightarrow> nat \<Rightarrow> nat \<Rightarrow> nat list" where
  "ring C t h = (if t \<le> h then [t..<h] else [t..<C] @ [0..<h])"

definition indices :: "'a SPSCQueue \<Rightarrow> size_t list" where
  "indices q = map of_nat (ring (unat (capacity_m q)) (unat (tail_m q)) (unat (head_m q)))"

text \<open>What the slots between \<open>tail_m\<close> and \<open>head_m\<close> hold, oldest first.\<close>

definition contents :: "size_t \<Rightarrow> 'a SPSCQueue \<Rightarrow> 'a option list" where
  "contents sizeof_T q = map (\<lambda>i. slots_m q (i + kPadding sizeof_T)) (indices q)"

text \<open>
  The states the operations keep to: both indices below the capacity, and a live object
  in exactly the physical slots of the logical indices from \<open>tail_m\<close> to \<open>head_m\<close>.
\<close>

definition queue_inv :: "size_t \<Rightarrow> 'a SPSCQueue \<Rightarrow> bool" where
  "queue_inv sizeof_T q \<longleftrightarrow>
     2 \<le> capacity_m q \<and> head_m q < capacity_m q \<and> tail_m q < capacity_m q \<and>
     (\<forall>p. slots_m q p \<noteq> None \<longleftrightarrow> p - kPadding sizeof_T \<in> set (indices q))"

definition live :: "'a SPSCQueue \<Rightarrow> size_t set" where
  "live q = {p. slots_m q p \<noteq> None}"

text \<open>The values constructed and the objects destroyed, in the order of the history.\<close>

fun constructed :: "'a event list \<Rightarrow> 'a list" where
  "constructed [] = []"
| "constructed (Construct p v # es) = v # constructed es"
| "constructed (e # es) = constructed es"

fun destroyed :: "'a event list \<Rightarrow> 'a option list" where
  "destroyed [] = []"
| "destroyed (Destroy p x # es) = x # destroyed es"
| "destroyed (e # es) = destroyed es"

text \<open>
  A physical slot index lies in the storage proper when it is at least \<open>kPadding\<close> and
  below \<open>kPadding + capacity\<close>, both read as natural numbers; the slots below and above
  are the padding.
\<close>

definition in_storage :: "size_t \<Rightarrow> size_t \<Rightarrow> size_t \<Rightarrow> bool" where
  "in_storage sizeof_T c p \<longleftrightarrow>
     unat (kPadding sizeof_T) \<le> unat p \<and> unat p < unat (kPadding sizeof_T) + unat c"

fun event_in_storage :: "size_t \<Rightarrow> size_t \<Rightarrow> 'a event \<Rightarrow> bool" where
  "event_in_storage sizeof_T c (Construct p v) = in_storage sizeof_T c p"
| "event_in_storage sizeof_T c (Destroy p x) = in_storage sizeof_T c p"
| "event_in_storage sizeof_T c Free = True"

section \<open>Sequences of calls\<close>

text \<open>
  A client of the queue makes calls one after the other. \<open>perform\<close> makes one call and
  gives what the caller sees: nothing for the \<^verbatim>\<open>void\<close> members, the flag of the
  \<^verbatim>\<open>try_\<close> members, for \<^verbatim>\<open>front\<close> the pointer together with the object read through
  it, the number returned by \<^verbatim>\<open>size\<close> and \<^verbatim>\<open>capacity\<close>, the flag returned by
  \<^verbatim>\<open>empty\<close>. \<open>run\<close> makes the calls of a list in order and stops at the first that
  does not return or aborts. \<open>construct_and_run\<close> constructs the queue first;
  \<open>observations\<close> keeps what the caller saw, \<open>last_effect\<close> the last effect on an
  element or on the storage.
\<close>

datatype 'a call =
  Emplace 'a | Try_emplace 'a | Push 'a | Try_push 'a | Front | Pop | Size | Empty | Capacity

datatype 'a result =
  Done | Success bool | Element "size_t option" "'a option" | Count size_t | Flag bool

fun perform ::
  "size_t \<Rightarrow> 'a call \<Rightarrow> 'a SPSCQueue \<Rightarrow> (failure + 'a result \<times> 'a SPSCQueue) option" where
  "perform s (Emplace v) q =
     (case emplace s v q of None \<Rightarrow> None | Some q' \<Rightarrow> Some (Inr (Done, q')))"
| "perform s (Push v) q =
     (case push s v q of None \<Rightarrow> None | Some q' \<Rightarrow> Some (Inr (Done, q')))"
| "perform s (Try_emplace v) q =
     (case try_emplace s v q of (b, q') \<Rightarrow> Some (Inr (Success b, q')))"
| "perform s (Try_push v) q =
     (case try_push s v q of (b, q') \<Rightarrow> Some (Inr (Success b, q')))"
| "perform s Front q =
     (case front s q of
        (None, q') \<Rightarrow> Some (Inr (Element None None, q'))
      | (Some p, q') \<Rightarrow> Some (Inr (Element (Some p) (slots_m q' p), q')))"
| "perform s Pop q =
     (case pop s q of Inl e \<Rightarrow> Some (Inl e) | Inr q' \<Rightarrow> Some (Inr (Done, q')))"
| "perform s Size q = Some (Inr (Count (size_q q), q))"
| "perform s Empty q = Some (Inr (Flag (empty_q q), q))"
| "perform s Capacity q = Some (Inr (Count (capacity q), q))"

fun run ::
  "size_t \<Rightarrow> 'a call list \<Rightarrow> 'a SPSCQueue \<Rightarrow>
   (failure + 'a result list \<times> 'a SPSCQueue) option" where
  "run s [] q = Some (Inr ([], q))"
| "run s (c # cs) q =
     (case perform s c q of
        None \<Rightarrow> None
      | Some (Inl e) \<Rightarrow> Some (Inl e)
      | Some (Inr (r, q')) \<Rightarrow>
          (case run s cs q' of
             None \<Rightarrow> None
           | Some (Inl e) \<Rightarrow> Some (Inl e)
           | Some (Inr (rs, q'')) \<Rightarrow> Some (Inr (r # rs, q''))))"

definition construct_and_run ::
  "size_t \<Rightarrow> (size_t \<Rightarrow> bool) \<Rightarrow> size_t \<Rightarrow> 'a call list \<Rightarrow>
   (failure + 'a result list \<times> 'a SPSCQueue) option" where
  "construct_and_run s malloc c cs =
     (case SPSCQueue_ctor s malloc c of Inl e \<Rightarrow> Some (Inl e) | Inr q \<Rightarrow> run s cs q)"

fun observations ::
  "(failure + 'a result list \<times> 'a SPSCQueue) option \<Rightarrow> (failure + 'a result list) option" where
  "observations None = None"
| "observations (Some (Inl e)) = Some (Inl e)"
| "observations (Some (Inr (rs, q))) = Some (Inr rs)"

fun last_effect :: "(failure + 'a result list \<times> 'a SPSCQueue) option \<Rightarrow> 'a event option" where
  "last_effect (Some (Inr (rs, q))) = (if events q = [] then None else Some (last (events q)))"
| "last_effect r = None"

text \<open>An allocator that serves every request.\<close>

definition always :: "size_t \<Rightarrow> bool" where
  "always n = True"

text \<open>
  What a construction takes from the platform. The byte count of the constructor,
  \<^verbatim>\<open>sizeof(T) * (capacity_ + 2 * kPadding)\<close>, is \<open>request_exact\<close> when the value
  computed in \<^verbatim>\<open>size_t\<close> is the product it stands for, with \<^verbatim>\<open>sizeof(T)\<close> at least 1
  as in every C++ type; a byte count that wrapped asks for a block of fewer slots, which
  is the matter of the last claim. An allocator \<open>serves_objects\<close> when it returns a
  block only for requests of at most \<^verbatim>\<open>PTRDIFF_MAX\<close> bytes, the largest object of an
  LP64 platform.
\<close>

definition PTRDIFF_MAX :: nat where
  "PTRDIFF_MAX = 2 ^ 63 - 1"

definition serves_objects :: "(size_t \<Rightarrow> bool) \<Rightarrow> bool" where
  "serves_objects malloc \<longleftrightarrow> (\<forall>n. malloc n \<longrightarrow> unat n \<le> PTRDIFF_MAX)"

definition request_exact :: "size_t \<Rightarrow> size_t \<Rightarrow> bool" where
  "request_exact sizeof_T requested \<longleftrightarrow>
     1 \<le> sizeof_T \<and>
     unat (sizeof_T * (requested + 2 * kPadding sizeof_T)) =
       unat sizeof_T * (unat requested + 2 * unat (kPadding sizeof_T))"

text \<open>The values the queue took in: those of the inserting calls that succeeded.\<close>

fun accepted1 :: "'a call \<Rightarrow> 'a result \<Rightarrow> 'a list" where
  "accepted1 (Emplace v) Done = [v]"
| "accepted1 (Push v) Done = [v]"
| "accepted1 (Try_emplace v) (Success True) = [v]"
| "accepted1 (Try_push v) (Success True) = [v]"
| "accepted1 c r = []"

fun accepted :: "'a call list \<Rightarrow> 'a result list \<Rightarrow> 'a list" where
  "accepted (c # cs) (r # rs) = accepted1 c r @ accepted cs rs"
| "accepted cs rs = []"

text \<open>
  The FIFO law in the spec's words, as a check of what the caller saw against a plain list
  \<open>xs\<close> of the values inserted and not yet removed: an insert that succeeds adds its
  value at the end, \<^verbatim>\<open>front\<close> shows the first value (a null pointer exactly when there is
  none), \<^verbatim>\<open>pop\<close> removes the first value, \<^verbatim>\<open>empty\<close> says whether there is none. The
  law says nothing about the numbers \<^verbatim>\<open>size\<close> and \<^verbatim>\<open>capacity\<close> return.
\<close>

fun fifo_next :: "'a list \<Rightarrow> 'a call \<Rightarrow> 'a result \<Rightarrow> 'a list option" where
  "fifo_next xs (Emplace v) Done = Some (xs @ [v])"
| "fifo_next xs (Push v) Done = Some (xs @ [v])"
| "fifo_next xs (Try_emplace v) (Success b) = Some (if b then xs @ [v] else xs)"
| "fifo_next xs (Try_push v) (Success b) = Some (if b then xs @ [v] else xs)"
| "fifo_next xs Front (Element p x) =
     (if x = (case xs of [] \<Rightarrow> None | y # ys \<Rightarrow> Some y) \<and> (p = None \<longleftrightarrow> xs = [])
      then Some xs else None)"
| "fifo_next xs Pop Done = (case xs of [] \<Rightarrow> None | y # ys \<Rightarrow> Some ys)"
| "fifo_next xs Size (Count n) = Some xs"
| "fifo_next xs Capacity (Count n) = Some xs"
| "fifo_next xs Empty (Flag b) = (if b \<longleftrightarrow> xs = [] then Some xs else None)"
| "fifo_next xs c r = None"

fun fifo_law :: "'a list \<Rightarrow> 'a call list \<Rightarrow> 'a result list \<Rightarrow> bool" where
  "fifo_law xs [] [] = True"
| "fifo_law xs (c # cs) (r # rs) =
     (case fifo_next xs c r of None \<Rightarrow> False | Some xs' \<Rightarrow> fifo_law xs' cs rs)"
| "fifo_law xs cs rs = False"

section \<open>States and call sequences used as examples\<close>

text \<open>
  Three small states of a queue of capacity 4 with four-byte elements (\<open>kPadding 4 = 32\<close>):
  fresh, after one \<^verbatim>\<open>emplace(7)\<close>, and full after three inserts. A fourth holds two
  elements across the end of the ring.
\<close>

definition none_of_four :: "nat SPSCQueue" where
  "none_of_four = \<lparr>capacity_m = 4, slots_m = (\<lambda>_. None), head_m = 0, tail_m = 0, events = []\<rparr>"

definition one_of_four :: "nat SPSCQueue" where
  "one_of_four = \<lparr>capacity_m = 4, slots_m = (\<lambda>_. None)(32 \<mapsto> 7), head_m = 1, tail_m = 0,
     events = [Construct 32 7]\<rparr>"

definition three_of_four :: "nat SPSCQueue" where
  "three_of_four = \<lparr>capacity_m = 4, slots_m = (\<lambda>_. None)(32 \<mapsto> 1, 33 \<mapsto> 2, 34 \<mapsto> 3),
     head_m = 3, tail_m = 0, events = [Construct 32 1, Construct 33 2, Construct 34 3]\<rparr>"

definition two_wrapped :: "nat SPSCQueue" where
  "two_wrapped = \<lparr>capacity_m = 4, slots_m = (\<lambda>_. None)(35 \<mapsto> 5, 32 \<mapsto> 6), head_m = 1,
     tail_m = 3, events = []\<rparr>"

text \<open>
  The end-to-end scenario of the spec on a queue of capacity 4: three inserts, a fourth
  that is refused, a \<^verbatim>\<open>pop\<close>, the fourth insert again, and the queue drained through
  \<^verbatim>\<open>front\<close> and \<^verbatim>\<open>pop\<close>; with what the caller is to see at each call.
\<close>

definition scenario :: "nat call list" where
  "scenario = [Capacity, Empty, Emplace 1, Push 2, Try_emplace 3, Size, Try_push 4, Pop,
     Try_push 4, Front, Front, Pop, Front, Pop, Front, Pop, Front, Empty]"

definition scenario_results :: "nat result list" where
  "scenario_results = [Count 4, Flag True, Done, Done, Success True, Count 3, Success False,
     Done, Success True, Element (Some 33) (Some 2), Element (Some 33) (Some 2), Done,
     Element (Some 34) (Some 3), Done, Element (Some 35) (Some 4), Done, Element None None,
     Flag True]"

text \<open>An allocator that serves requests of up to 4096 bytes.\<close>

definition small_heap :: "size_t \<Rightarrow> bool" where
  "small_heap n \<longleftrightarrow> n \<le> 4096"

section \<open>Lemmas\<close>

subsection \<open>The ring of indices\<close>

lemma ring_snoc:
  "h < C \<Longrightarrow> t < C \<Longrightarrow> Suc h mod C \<noteq> t \<Longrightarrow> ring C t (Suc h mod C) = ring C t h @ [h]"
  by (cases "Suc h = C") (auto simp: ring_def)

lemma ring_Cons:
  "h < C \<Longrightarrow> t < C \<Longrightarrow> h \<noteq> t \<Longrightarrow> ring C t h = t # ring C (Suc t mod C) h"
  by (cases "Suc t = C") (auto simp: ring_def upt_conv_Cons)

lemma ring_empty: "ring C t t = []"
  by (simp add: ring_def)

lemma length_ring: "h < C \<Longrightarrow> t < C \<Longrightarrow> length (ring C t h) = (h + C - t) mod C"
  by (auto simp: ring_def mod_if)

lemma set_ring: "h < C \<Longrightarrow> t < C \<Longrightarrow> set (ring C t h) \<subseteq> {..<C}"
  by (auto simp: ring_def)

lemma distinct_ring: "h < C \<Longrightarrow> t < C \<Longrightarrow> distinct (ring C t h)"
  by (auto simp: ring_def)

lemma head_notin_ring: "h \<notin> set (ring C t h)"
  by (auto simp: ring_def)

lemma unat_next:
  fixes i c :: "64 word"
  shows "i < c \<Longrightarrow> unat ((i + 1) mod c) = Suc (unat i) mod unat c"
  by (simp add: unat_mod_distrib) unat_arith

subsection \<open>The spin loop of \<^verbatim>\<open>emplace\<close>\<close>

text \<open>
  Without a consumer the loop returns exactly when the queue is not full, and then
  \<^verbatim>\<open>emplace\<close> does what a successful \<^verbatim>\<open>try_emplace\<close> does.
\<close>

lemma emplace_spin_Some: "emplace_spin q n = Some y \<Longrightarrow> n \<noteq> tail_m q"
  by (rule emplace_spin.raw_induct [where P = "\<lambda>q n y. n \<noteq> tail_m q"])
     (simp_all split: if_splits)

lemma emplace_spin_eq: "emplace_spin q n = (if n = tail_m q then None else Some ())"
proof (cases "n = tail_m q")
  case True
  have "emplace_spin q n = None"
  proof (cases "emplace_spin q n")
    case (Some y)
    from emplace_spin_Some [OF this] True show ?thesis by simp
  qed simp
  with True show ?thesis by simp
next
  case False
  then show ?thesis by (simp add: emplace_spin.simps)
qed

lemma emplace_eq:
  "emplace s v q = (case try_emplace s v q of (True, q') \<Rightarrow> Some q' | (False, _) \<Rightarrow> None)"
  by (simp add: emplace_def try_emplace_def emplace_spin_eq Let_def)

subsection \<open>The logical indices of a state\<close>

lemma indices_snoc:
  "head_m q < capacity_m q \<Longrightarrow> tail_m q < capacity_m q \<Longrightarrow>
   (head_m q + 1) mod capacity_m q \<noteq> tail_m q \<Longrightarrow>
   indices (q\<lparr>head_m := (head_m q + 1) mod capacity_m q\<rparr>) = indices q @ [head_m q]"
  apply (simp add: indices_def unat_next)
  apply (subst ring_snoc)
  apply (simp_all add: word_less_nat_alt)
  apply (metis unat_next word_unat_eq_iff word_less_nat_alt)
  done

lemma indices_Cons:
  "head_m q < capacity_m q \<Longrightarrow> tail_m q < capacity_m q \<Longrightarrow> head_m q \<noteq> tail_m q \<Longrightarrow>
   indices q = tail_m q # indices (q\<lparr>tail_m := (tail_m q + 1) mod capacity_m q\<rparr>)"
  apply (simp add: indices_def unat_next)
  apply (subst ring_Cons)
  apply (simp_all add: word_less_nat_alt word_unat_eq_iff)
  done

lemma indices_empty: "head_m q = tail_m q \<Longrightarrow> indices q = []"
  by (simp add: indices_def ring_empty)

lemma indices_nonempty: "head_m q < capacity_m q \<Longrightarrow> tail_m q < capacity_m q \<Longrightarrow> head_m q \<noteq> tail_m q \<Longrightarrow> indices q \<noteq> []"
  using indices_Cons by fastforce

lemma set_ring_lt: "h < C \<Longrightarrow> t < C \<Longrightarrow> x \<in> set (ring C t h) \<Longrightarrow> x < C"
  using set_ring by blast

lemma unat_indices:
  assumes "head_m q < capacity_m q" "tail_m q < capacity_m q"
  shows "map unat (indices q) = ring (unat (capacity_m q)) (unat (tail_m q)) (unat (head_m q))"
proof -
  let ?C = "unat (capacity_m q)" and ?t = "unat (tail_m q)" and ?h = "unat (head_m q)"
  have lt: "?h < ?C" "?t < ?C"
    using assms by (simp_all add: word_less_nat_alt)
  have "unat (of_nat x :: size_t) = x" if "x \<in> set (ring ?C ?t ?h)" for x
  proof -
    have "x < ?C" using set_ring_lt [OF lt that] .
    moreover have "?C < 2 ^ 64" using unsigned_less [of "capacity_m q"] by simp
    ultimately show ?thesis by (intro of_nat_inverse) simp_all
  qed
  then have "map (\<lambda>x. unat (of_nat x :: size_t)) (ring ?C ?t ?h) = ring ?C ?t ?h"
    by (simp add: map_idI)
  then show ?thesis by (simp add: indices_def comp_def)
qed

lemma distinct_indices:
  assumes "head_m q < capacity_m q" "tail_m q < capacity_m q"
  shows "distinct (indices q)"
proof -
  have "distinct (map unat (indices q))"
    using assms by (simp add: unat_indices distinct_ring word_less_nat_alt)
  then show ?thesis by (simp add: distinct_map)
qed

lemma indices_lt:
  assumes "head_m q < capacity_m q" "tail_m q < capacity_m q" "i \<in> set (indices q)"
  shows "i < capacity_m q"
proof -
  have "unat i \<in> set (map unat (indices q))" using assms(3) by simp
  then have "unat i \<in> set (ring (unat (capacity_m q)) (unat (tail_m q)) (unat (head_m q)))"
    using assms by (simp add: unat_indices)
  moreover have "unat (head_m q) < unat (capacity_m q)" "unat (tail_m q) < unat (capacity_m q)"
    using assms by (simp_all add: word_less_nat_alt)
  ultimately have "unat i < unat (capacity_m q)"
    by (rule set_ring_lt [rotated 2])
  then show ?thesis by (simp add: word_less_nat_alt)
qed

lemma head_notin_indices:
  assumes "head_m q < capacity_m q" "tail_m q < capacity_m q"
  shows "head_m q \<notin> set (indices q)"
proof
  assume "head_m q \<in> set (indices q)"
  then have "unat (head_m q) \<in> set (map unat (indices q))" by simp
  then show False using assms by (simp add: unat_indices head_notin_ring)
qed

lemma length_indices:
  assumes "head_m q < capacity_m q" "tail_m q < capacity_m q"
  shows "length (indices q) =
    (unat (head_m q) + unat (capacity_m q) - unat (tail_m q)) mod unat (capacity_m q)"
  using assms by (simp add: indices_def length_ring word_less_nat_alt)

lemma length_indices_le:
  assumes "head_m q < capacity_m q" "tail_m q < capacity_m q"
  shows "length (indices q) \<le> unat (capacity_m q) - 1"
proof -
  have "0 < unat (capacity_m q)" using assms by (simp add: word_less_nat_alt)
  then have "length (indices q) < unat (capacity_m q)"
    by (simp add: length_indices [OF assms])
  then show ?thesis by simp
qed

lemma full_iff_length:
  assumes "head_m q < capacity_m q" "tail_m q < capacity_m q"
  shows "(head_m q + 1) mod capacity_m q = tail_m q \<longleftrightarrow>
         length (indices q) = unat (capacity_m q) - 1"
proof -
  let ?C = "unat (capacity_m q)" and ?t = "unat (tail_m q)" and ?h = "unat (head_m q)"
  have lt: "?h < ?C" "?t < ?C"
    using assms by (simp_all add: word_less_nat_alt)
  have "(head_m q + 1) mod capacity_m q = tail_m q \<longleftrightarrow> Suc ?h mod ?C = ?t"
    using unat_next [OF assms(1)] by (metis word_unat_eq_iff)
  also have "\<dots> \<longleftrightarrow> (?h + ?C - ?t) mod ?C = ?C - 1"
    using lt by (cases "Suc ?h = ?C") (auto simp: mod_if)
  finally show ?thesis by (simp add: length_indices [OF assms])
qed

subsection \<open>One insert, one removal\<close>

lemma try_emplace_full:
  "(head_m q + 1) mod capacity_m q = tail_m q \<Longrightarrow> try_emplace s v q = (False, q)"
  by (simp add: try_emplace_def)

lemma try_emplace_space:
  "(head_m q + 1) mod capacity_m q \<noteq> tail_m q \<Longrightarrow>
   try_emplace s v q =
     (True, q\<lparr>slots_m := (slots_m q)(head_m q + kPadding s \<mapsto> v),
              head_m := (head_m q + 1) mod capacity_m q,
              events := events q @ [Construct (head_m q + kPadding s) v]\<rparr>)"
  by (simp add: try_emplace_def Let_def)

lemma pop_empty: "head_m q = tail_m q \<Longrightarrow> pop s q = Inl assertion_failed"
  by (simp add: pop_def)

lemma pop_nonempty:
  "head_m q \<noteq> tail_m q \<Longrightarrow>
   pop s q =
     Inr (q\<lparr>slots_m := (slots_m q)(tail_m q + kPadding s := None),
            tail_m := (tail_m q + 1) mod capacity_m q,
            events := events q @ [Destroy (tail_m q + kPadding s) (slots_m q (tail_m q + kPadding s))]\<rparr>)"
  by (simp add: pop_def Let_def)

lemma next_lt:
  fixes i c :: size_t
  shows "i < c \<Longrightarrow> (i + 1) mod c < c"
proof -
  assume "i < c"
  then have "0 < unat c" by (simp add: word_less_nat_alt)
  then have "Suc (unat i) mod unat c < unat c" by simp
  then show ?thesis using \<open>i < c\<close> by (simp add: word_less_nat_alt unat_next)
qed

lemma queue_inv_try_emplace:
  assumes "queue_inv s q"
  shows "queue_inv s (snd (try_emplace s v q))"
proof (cases "(head_m q + 1) mod capacity_m q = tail_m q")
  case True
  then show ?thesis using assms by (simp add: try_emplace_full)
next
  case False
  let ?q' = "snd (try_emplace s v q)"
  from assms have lt: "head_m q < capacity_m q" "tail_m q < capacity_m q"
    by (simp_all add: queue_inv_def)
  have ix: "indices ?q' = indices q @ [head_m q]"
    using indices_snoc [OF lt False] by (simp add: try_emplace_space [OF False] indices_def)
  have "\<forall>p. slots_m ?q' p \<noteq> None \<longleftrightarrow> p - kPadding s \<in> set (indices ?q')"
  proof
    fix p
    have "p = head_m q + kPadding s \<longleftrightarrow> p - kPadding s = head_m q" by (simp add: diff_eq_eq)
    then show "slots_m ?q' p \<noteq> None \<longleftrightarrow> p - kPadding s \<in> set (indices ?q')"
      using assms unfolding ix by (auto simp: try_emplace_space [OF False] queue_inv_def)
  qed
  moreover have "head_m ?q' < capacity_m ?q'"
    using next_lt [OF lt(1)] by (simp add: try_emplace_space [OF False])
  moreover have "2 \<le> capacity_m ?q'" "tail_m ?q' < capacity_m ?q'"
    using assms by (simp_all add: try_emplace_space [OF False] queue_inv_def)
  ultimately show ?thesis unfolding queue_inv_def by blast
qed

lemma queue_inv_pop:
  assumes "queue_inv s q" "pop s q = Inr q'"
  shows "queue_inv s q'"
proof -
  from assms have lt: "head_m q < capacity_m q" "tail_m q < capacity_m q"
    by (simp_all add: queue_inv_def)
  from assms(2) have ne: "head_m q \<noteq> tail_m q"
    by (auto simp: pop_def split: if_splits)
  from assms(2) have q': "q' = q\<lparr>slots_m := (slots_m q)(tail_m q + kPadding s := None),
            tail_m := (tail_m q + 1) mod capacity_m q,
            events := events q @ [Destroy (tail_m q + kPadding s) (slots_m q (tail_m q + kPadding s))]\<rparr>"
    by (simp add: pop_nonempty [OF ne])
  have ix: "indices q = tail_m q # indices q'"
    using indices_Cons [OF lt ne] by (simp add: q' indices_def)
  have "distinct (indices q)" by (rule distinct_indices [OF lt])
  then have notin: "tail_m q \<notin> set (indices q')" by (simp add: ix)
  have "\<forall>p. slots_m q' p \<noteq> None \<longleftrightarrow> p - kPadding s \<in> set (indices q')"
  proof
    fix p
    have "p = tail_m q + kPadding s \<longleftrightarrow> p - kPadding s = tail_m q" by (simp add: diff_eq_eq)
    moreover have "slots_m q p \<noteq> None \<longleftrightarrow> p - kPadding s \<in> set (indices q)"
      using assms(1) by (simp add: queue_inv_def)
    ultimately show "slots_m q' p \<noteq> None \<longleftrightarrow> p - kPadding s \<in> set (indices q')"
      using notin unfolding ix by (auto simp: q')
  qed
  moreover have "tail_m q' < capacity_m q'"
    using next_lt [OF lt(2)] by (simp add: q')
  moreover have "2 \<le> capacity_m q'" "head_m q' < capacity_m q'"
    using assms(1) by (simp_all add: q' queue_inv_def)
  ultimately show ?thesis unfolding queue_inv_def by blast
qed

lemma queue_inv_lt:
  "queue_inv s q \<Longrightarrow> head_m q < capacity_m q"
  "queue_inv s q \<Longrightarrow> tail_m q < capacity_m q"
  by (simp_all add: queue_inv_def)

lemma contents_try_emplace:
  assumes "queue_inv s q" "(head_m q + 1) mod capacity_m q \<noteq> tail_m q"
  shows "contents s (snd (try_emplace s v q)) = contents s q @ [Some v]"
proof -
  let ?q' = "snd (try_emplace s v q)"
  note lt = queue_inv_lt [OF assms(1)]
  have ix: "indices ?q' = indices q @ [head_m q]"
    using indices_snoc [OF lt assms(2)] by (simp add: try_emplace_space [OF assms(2)] indices_def)
  have "slots_m ?q' (i + kPadding s) = slots_m q (i + kPadding s)" if "i \<in> set (indices q)" for i
  proof -
    from that head_notin_indices [OF lt] have "i \<noteq> head_m q" by auto
    then show ?thesis by (simp add: try_emplace_space [OF assms(2)])
  qed
  moreover have "slots_m ?q' (head_m q + kPadding s) = Some v"
    by (simp add: try_emplace_space [OF assms(2)])
  ultimately show ?thesis by (simp add: contents_def ix)
qed

lemma contents_pop:
  assumes "queue_inv s q" "pop s q = Inr q'"
  shows "contents s q = slots_m q (tail_m q + kPadding s) # contents s q'"
proof -
  note lt = queue_inv_lt [OF assms(1)]
  from assms(2) have ne: "head_m q \<noteq> tail_m q"
    by (auto simp: pop_def split: if_splits)
  from assms(2) have q': "q' = q\<lparr>slots_m := (slots_m q)(tail_m q + kPadding s := None),
            tail_m := (tail_m q + 1) mod capacity_m q,
            events := events q @ [Destroy (tail_m q + kPadding s) (slots_m q (tail_m q + kPadding s))]\<rparr>"
    by (simp add: pop_nonempty [OF ne])
  have ix: "indices q = tail_m q # indices q'"
    using indices_Cons [OF lt ne] by (simp add: q' indices_def)
  have "distinct (indices q)" by (rule distinct_indices [OF lt])
  then have notin: "tail_m q \<notin> set (indices q')" by (simp add: ix)
  have "slots_m q' (i + kPadding s) = slots_m q (i + kPadding s)" if "i \<in> set (indices q')" for i
  proof -
    from that notin have "i \<noteq> tail_m q" by auto
    then show ?thesis by (simp add: q')
  qed
  then have "map (\<lambda>i. slots_m q (i + kPadding s)) (indices q') = contents s q'"
    by (simp add: contents_def)
  then show ?thesis by (simp add: contents_def ix)
qed

lemma contents_live:
  assumes "queue_inv s q"
  shows "None \<notin> set (contents s q)"
proof
  assume "None \<in> set (contents s q)"
  then obtain i where i: "i \<in> set (indices q)" "slots_m q (i + kPadding s) = None"
    by (auto simp: contents_def)
  from assms have "slots_m q (i + kPadding s) \<noteq> None \<longleftrightarrow> (i + kPadding s) - kPadding s \<in> set (indices q)"
    unfolding queue_inv_def by blast
  with i show False by simp
qed

lemma live_slots:
  assumes "queue_inv s q"
  shows "live q = (\<lambda>i. i + kPadding s) ` set (indices q)"
proof -
  have "p - kPadding s \<in> set (indices q) \<longleftrightarrow> p \<in> (\<lambda>i. i + kPadding s) ` set (indices q)" for p
  proof
    assume "p - kPadding s \<in> set (indices q)"
    then have "(p - kPadding s) + kPadding s \<in> (\<lambda>i. i + kPadding s) ` set (indices q)"
      by (rule imageI)
    then show "p \<in> (\<lambda>i. i + kPadding s) ` set (indices q)" by simp
  next
    assume "p \<in> (\<lambda>i. i + kPadding s) ` set (indices q)"
    then show "p - kPadding s \<in> set (indices q)" by auto
  qed
  with assms show ?thesis unfolding queue_inv_def live_def by blast
qed

lemma card_live:
  assumes "queue_inv s q"
  shows "card (live q) = length (indices q)"
proof -
  have "inj_on (\<lambda>i. i + kPadding s) (set (indices q))"
    by (simp add: inj_on_def)
  then have "card ((\<lambda>i. i + kPadding s) ` set (indices q)) = card (set (indices q))"
    by (rule card_image)
  also have "\<dots> = length (indices q)"
    using distinct_indices [OF queue_inv_lt [OF assms]] by (rule distinct_card)
  finally show ?thesis unfolding live_slots [OF assms] .
qed

subsection \<open>The value of \<^verbatim>\<open>size\<close>\<close>

lemma sint_neg_iff: "sint (w :: size_t) < 0 \<longleftrightarrow> 2 ^ 63 \<le> uint w"
proof -
  define x where "x = uint w"
  have s: "sint w = (x + 2 ^ 63) mod 2 ^ 64 - 2 ^ 63"
    by (simp add: x_def sint_uint signed_take_bit_eq_take_bit_shift take_bit_eq_mod)
  have b: "0 \<le> x" "x < 2 ^ 64"
    using uint_lt2p [of w] by (simp_all add: x_def)
  have "sint w < 0 \<longleftrightarrow> 2 ^ 63 \<le> x"
  proof (cases "x < 2 ^ 63")
    case True
    with b have "(x + 2 ^ 63) mod 2 ^ 64 = x + 2 ^ 63"
      by (intro mod_pos_pos_trivial) simp_all
    with True b s show ?thesis by simp
  next
    case False
    have "(x + 2 ^ 63) mod 2 ^ 64 = x - 2 ^ 63"
      by (rule int_mod_pos_eq [where q = 1]) (use False b in simp_all)
    with False b s show ?thesis by simp
  qed
  then show ?thesis by (simp add: x_def)
qed

lemma uint_size_q:
  assumes "head_m q < capacity_m q" "tail_m q < capacity_m q" "capacity_m q \<le> 2 ^ 63"
  shows "uint (size_q q) = (uint (head_m q) - uint (tail_m q)) mod uint (capacity_m q)"
proof -
  define h t C where "h = uint (head_m q)" and "t = uint (tail_m q)" and "C = uint (capacity_m q)"
  have b: "0 \<le> h" "0 \<le> t" "h < C" "t < C" "C \<le> 2 ^ 63"
    using assms by (simp_all add: h_def t_def C_def word_less_def word_le_def)
  have sub: "uint (head_m q - tail_m q) = (if t \<le> h then h - t else h - t + 2 ^ 64)"
    by (simp add: h_def t_def uint_sub_if')
  have add: "uint (head_m q - tail_m q + capacity_m q) =
      (if uint (head_m q - tail_m q) + C < 2 ^ 64 then uint (head_m q - tail_m q) + C
       else uint (head_m q - tail_m q) + C - 2 ^ 64)"
    by (simp add: C_def uint_plus_if')
  have neg: "sint (head_m q - tail_m q) < 0 \<longleftrightarrow> 2 ^ 63 \<le> uint (head_m q - tail_m q)"
    by (rule sint_neg_iff)
  have "uint (size_q q) = (h - t) mod C"
  proof (cases "t \<le> h")
    case True
    with sub have d: "uint (head_m q - tail_m q) = h - t" by simp
    with b True neg have "\<not> sint (head_m q - tail_m q) < 0" by simp
    then have "size_q q = head_m q - tail_m q" by (simp add: size_q_def Let_def)
    moreover have "(h - t) mod C = h - t"
      using b True by (intro mod_pos_pos_trivial) simp_all
    ultimately show ?thesis using d by simp
  next
    case False
    with sub have d: "uint (head_m q - tail_m q) = h - t + 2 ^ 64" by simp
    with b False neg have "sint (head_m q - tail_m q) < 0" by simp
    then have "size_q q = head_m q - tail_m q + capacity_m q" by (simp add: size_q_def Let_def)
    moreover have "uint (head_m q - tail_m q + capacity_m q) = h - t + C"
      using b False d add by simp
    moreover have "(h - t) mod C = h - t + C"
      by (rule int_mod_pos_eq [where q = "-1"]) (use False b in simp_all)
    ultimately show ?thesis by simp
  qed
  then show ?thesis by (simp add: h_def t_def C_def)
qed

lemma uint_size_q_cases:
  assumes "head_m q < capacity_m q" "tail_m q < capacity_m q"
  shows "uint (size_q q) =
    (let h = uint (head_m q); t = uint (tail_m q); C = uint (capacity_m q) in
     if t \<le> h then (if h - t < 2 ^ 63 then h - t else h - t + C - 2 ^ 64)
     else (if t - h \<le> 2 ^ 63 then h - t + C else h - t + 2 ^ 64))"
proof -
  define h t C where "h = uint (head_m q)" and "t = uint (tail_m q)" and "C = uint (capacity_m q)"
  have b: "0 \<le> h" "0 \<le> t" "h < C" "t < C" "C < 2 ^ 64"
    using assms uint_lt2p [of "capacity_m q"]
    by (simp_all add: h_def t_def C_def word_less_def)
  have sub: "uint (head_m q - tail_m q) = (if t \<le> h then h - t else h - t + 2 ^ 64)"
    by (simp add: h_def t_def uint_sub_if')
  have add: "uint (head_m q - tail_m q + capacity_m q) =
      (if uint (head_m q - tail_m q) + C < 2 ^ 64 then uint (head_m q - tail_m q) + C
       else uint (head_m q - tail_m q) + C - 2 ^ 64)"
    by (simp add: C_def uint_plus_if')
  have neg: "sint (head_m q - tail_m q) < 0 \<longleftrightarrow> 2 ^ 63 \<le> uint (head_m q - tail_m q)"
    by (rule sint_neg_iff)
  have sz: "uint (size_q q) =
      (if 2 ^ 63 \<le> uint (head_m q - tail_m q) then uint (head_m q - tail_m q + capacity_m q)
       else uint (head_m q - tail_m q))"
    by (simp add: size_q_def Let_def neg)
  have "uint (size_q q) =
     (if t \<le> h then (if h - t < 2 ^ 63 then h - t else h - t + C - 2 ^ 64)
      else (if t - h \<le> 2 ^ 63 then h - t + C else h - t + 2 ^ 64))"
    unfolding sz add sub using b by auto
  then show ?thesis by (simp add: h_def t_def C_def Let_def)
qed

lemma size_q_lt:
  assumes "head_m q < capacity_m q" "tail_m q < capacity_m q"
  shows "size_q q < capacity_m q"
proof -
  define h t C where "h = uint (head_m q)" and "t = uint (tail_m q)" and "C = uint (capacity_m q)"
  have b: "0 \<le> h" "0 \<le> t" "h < C" "t < C" "C < 2 ^ 64"
    using assms uint_lt2p [of "capacity_m q"]
    by (simp_all add: h_def t_def C_def word_less_def)
  have "uint (size_q q) =
     (if t \<le> h then (if h - t < 2 ^ 63 then h - t else h - t + C - 2 ^ 64)
      else (if t - h \<le> 2 ^ 63 then h - t + C else h - t + 2 ^ 64))"
    using uint_size_q_cases [OF assms] by (simp add: h_def t_def C_def Let_def)
  with b have "uint (size_q q) < C" by (auto split: if_splits)
  then show ?thesis by (simp add: C_def word_less_def)
qed

lemma size_q_zero_iff:
  assumes "head_m q < capacity_m q" "tail_m q < capacity_m q"
  shows "size_q q = 0 \<longleftrightarrow> head_m q = tail_m q"
proof -
  define h t C where "h = uint (head_m q)" and "t = uint (tail_m q)" and "C = uint (capacity_m q)"
  have b: "0 \<le> h" "0 \<le> t" "h < C" "t < C" "C < 2 ^ 64"
    using assms uint_lt2p [of "capacity_m q"]
    by (simp_all add: h_def t_def C_def word_less_def)
  have "uint (size_q q) =
     (if t \<le> h then (if h - t < 2 ^ 63 then h - t else h - t + C - 2 ^ 64)
      else (if t - h \<le> 2 ^ 63 then h - t + C else h - t + 2 ^ 64))"
    using uint_size_q_cases [OF assms] by (simp add: h_def t_def C_def Let_def)
  with b have "uint (size_q q) = 0 \<longleftrightarrow> h = t" by (auto split: if_splits)
  then show ?thesis by (simp add: h_def t_def word_uint_eq_iff)
qed

subsection \<open>One call and the FIFO law\<close>

lemma constructed_append [simp]: "constructed (es @ fs) = constructed es @ constructed fs"
  by (induction es rule: constructed.induct) simp_all

lemma destroyed_append [simp]: "destroyed (es @ fs) = destroyed es @ destroyed fs"
  by (induction es rule: destroyed.induct) simp_all

lemma call_try_emplace:
  assumes inv: "queue_inv s q" and c: "try_emplace s v q = (b, q')"
    and xs: "contents s q = map Some xs"
  shows "queue_inv s q' \<and> contents s q' = map Some (if b then xs @ [v] else xs) \<and>
    constructed (events q') = constructed (events q) @ (if b then [v] else []) \<and>
    destroyed (events q') = destroyed (events q)"
proof (cases "(head_m q + 1) mod capacity_m q = tail_m q")
  case True
  with c have "b = False" "q' = q" by (simp_all add: try_emplace_full)
  with inv xs show ?thesis by simp
next
  case False
  with c have b: "b = True" and q': "q' = snd (try_emplace s v q)"
    by (simp_all add: try_emplace_space)
  have "queue_inv s q'" unfolding q' using inv by (rule queue_inv_try_emplace)
  moreover have "contents s q' = map Some (xs @ [v])"
    unfolding q' using contents_try_emplace [OF inv False] xs by simp
  moreover have "events q' = events q @ [Construct (head_m q + kPadding s) v]"
    unfolding q' by (simp add: try_emplace_space [OF False])
  ultimately show ?thesis using b by simp
qed

lemma call_step:
  assumes inv: "queue_inv s q" and c: "perform s c q = Some (Inr (r, q'))"
    and xs: "contents s q = map Some xs"
  shows "\<exists>xs'. fifo_next xs c r = Some xs' \<and> contents s q' = map Some xs' \<and> queue_inv s q' \<and>
    constructed (events q') = constructed (events q) @ accepted1 c r \<and>
    destroyed (events q') @ contents s q' =
      destroyed (events q) @ contents s q @ map Some (accepted1 c r)"
proof (cases c)
  case (Emplace v)
  with c have t: "try_emplace s v q = (True, q')" and r: "r = Done"
    by (auto simp: emplace_eq split: prod.splits bool.splits option.splits)
  from call_try_emplace [OF inv t xs] show ?thesis
    by (simp add: Emplace r xs)
next
  case (Push v)
  with c have t: "try_emplace s v q = (True, q')" and r: "r = Done"
    by (auto simp: push_def emplace_eq split: prod.splits bool.splits option.splits)
  from call_try_emplace [OF inv t xs] show ?thesis
    by (simp add: Push r xs)
next
  case (Try_emplace v)
  with c obtain b where t: "try_emplace s v q = (b, q')" and r: "r = Success b"
    by (auto split: prod.splits)
  from call_try_emplace [OF inv t xs] show ?thesis
    by (cases b) (simp_all add: Try_emplace r xs)
next
  case (Try_push v)
  with c obtain b where t: "try_emplace s v q = (b, q')" and r: "r = Success b"
    by (auto simp: try_push_def split: prod.splits)
  from call_try_emplace [OF inv t xs] show ?thesis
    by (cases b) (simp_all add: Try_push r xs)
next
  case Front
  note lt = queue_inv_lt [OF inv]
  show ?thesis
  proof (cases "head_m q = tail_m q")
    case True
    with c Front have "r = Element None None" "q' = q" by (simp_all add: front_def)
    moreover from True xs have "xs = []" by (simp add: contents_def indices_empty)
    ultimately show ?thesis using inv xs by (simp add: Front)
  next
    case False
    with c Front have r: "r = Element (Some (tail_m q + kPadding s)) (slots_m q (tail_m q + kPadding s))"
      and q': "q' = q" by (auto simp: front_def)
    from indices_Cons [OF lt False] obtain js where "indices q = tail_m q # js" by blast
    with xs obtain y ys where "xs = y # ys" "slots_m q (tail_m q + kPadding s) = Some y"
      by (auto simp: contents_def)
    then show ?thesis using inv xs by (simp add: Front r q')
  qed
next
  case Pop
  with c have p: "pop s q = Inr q'" and r: "r = Done"
    by (auto split: sum.splits)
  from contents_pop [OF inv p] xs obtain y ys where
    y: "xs = y # ys" "slots_m q (tail_m q + kPadding s) = Some y" "contents s q' = map Some ys"
    by (cases xs) auto
  from p have ne: "head_m q \<noteq> tail_m q" by (auto simp: pop_def split: if_splits)
  have "events q' = events q @ [Destroy (tail_m q + kPadding s) (slots_m q (tail_m q + kPadding s))]"
    using p by (simp add: pop_nonempty [OF ne]) auto
  with y queue_inv_pop [OF inv p] xs show ?thesis by (simp add: Pop r)
next
  case Size
  with c have "r = Count (size_q q)" "q' = q" by auto
  with inv xs show ?thesis by (simp add: Size)
next
  case Capacity
  with c have "r = Count (capacity q)" "q' = q" by auto
  with inv xs show ?thesis by (simp add: Capacity)
next
  case Empty
  with c have r: "r = Flag (empty_q q)" and q': "q' = q" by auto
  note lt = queue_inv_lt [OF inv]
  have "empty_q q \<longleftrightarrow> head_m q = tail_m q"
    by (simp add: empty_q_def size_q_zero_iff [OF lt])
  also have "\<dots> \<longleftrightarrow> indices q = []"
    using indices_empty [of q] indices_nonempty [OF lt] by blast
  also have "\<dots> \<longleftrightarrow> xs = []"
  proof -
    from arg_cong [OF xs, of length] have "length (indices q) = length xs"
      by (simp add: contents_def)
    then show ?thesis by (metis length_0_conv)
  qed
  finally show ?thesis using inv xs by (simp add: Empty r q')
qed

lemma run_Cons_Inr:
  assumes "run s (c # cs) q = Some (Inr (rs, q''))"
  obtains r q' rs' where "perform s c q = Some (Inr (r, q'))"
    "run s cs q' = Some (Inr (rs', q''))" "rs = r # rs'"
  using assms by (auto split: option.splits sum.splits prod.splits)

lemma run_fifo:
  assumes "queue_inv s q" "run s cs q = Some (Inr (rs, q'))" "contents s q = map Some xs"
  shows "fifo_law xs cs rs \<and> queue_inv s q' \<and>
    constructed (events q') = constructed (events q) @ accepted cs rs \<and>
    destroyed (events q') @ contents s q' =
      destroyed (events q) @ contents s q @ map Some (accepted cs rs)"
  using assms
proof (induction cs arbitrary: q rs xs)
  case Nil
  then show ?case by simp
next
  case (Cons c cs)
  from Cons.prems(2) obtain r q1 rs' where
    c: "perform s c q = Some (Inr (r, q1))" and
    r: "run s cs q1 = Some (Inr (rs', q'))" and rs: "rs = r # rs'"
    by (rule run_Cons_Inr)
  from call_step [OF Cons.prems(1) c Cons.prems(3)] obtain xs' where
    s1: "fifo_next xs c r = Some xs'" "contents s q1 = map Some xs'" "queue_inv s q1"
      "constructed (events q1) = constructed (events q) @ accepted1 c r"
      "destroyed (events q1) @ contents s q1 =
         destroyed (events q) @ contents s q @ map Some (accepted1 c r)"
    by blast
  from Cons.IH [OF s1(3) r s1(2)] have
    s2: "fifo_law xs' cs rs'" "queue_inv s q'"
      "constructed (events q') = constructed (events q1) @ accepted cs rs'"
      "destroyed (events q') @ contents s q' =
         destroyed (events q1) @ contents s q1 @ map Some (accepted cs rs')"
    by simp_all
  have "fifo_law xs (c # cs) rs" using s1(1) s2(1) by (simp add: rs)
  moreover have "constructed (events q') = constructed (events q) @ accepted (c # cs) rs"
    using s1(4) s2(3) by (simp add: rs)
  moreover have "destroyed (events q') @ contents s q' =
      destroyed (events q) @ contents s q @ map Some (accepted (c # cs) rs)"
    using s1(5) s2(4) by (simp add: rs)
  ultimately show ?case using s2(2) by blast
qed

subsection \<open>Construction and the loop of the destructor\<close>

lemma queue_inv_ctor:
  assumes "SPSCQueue_ctor s malloc C = Inr q"
  shows "queue_inv s q \<and> capacity_m q = C \<and> head_m q = 0 \<and> tail_m q = 0 \<and>
     events q = [] \<and> slots_m q = (\<lambda>_. None)"
proof -
  from assms have C: "2 \<le> C" and q: "q = \<lparr>capacity_m = C, slots_m = (\<lambda>_. None), head_m = 0, tail_m = 0, events = []\<rparr>"
    by (auto simp: SPSCQueue_ctor_def Let_def split: if_splits)
  from C have "0 < C" by (simp add: word_less_nat_alt word_le_nat_alt)
  with C show ?thesis by (simp add: q queue_inv_def indices_def ring_def)
qed

lemma drain_total:
  assumes "queue_inv s q"
  shows "\<exists>q'. drain s q = Some (Inr q') \<and>
    events q' = events q @ map (\<lambda>i. Destroy (i + kPadding s) (slots_m q (i + kPadding s))) (indices q) \<and>
    slots_m q' = (\<lambda>_. None) \<and> head_m q' = head_m q \<and> tail_m q' = head_m q \<and>
    capacity_m q' = capacity_m q"
  using assms
proof (induction "length (indices q)" arbitrary: q)
  case 0
  note lt = queue_inv_lt [OF "0.prems"]
  from 0 have e: "indices q = []" by simp
  with indices_nonempty [OF lt] have ht: "head_m q = tail_m q" by blast
  from "0.prems" e have "slots_m q p = None" for p
    by (auto simp: queue_inv_def)
  then have "slots_m q = (\<lambda>_. None)" by (rule ext)
  moreover have "drain s q = Some (Inr q)"
    by (subst drain.simps) (simp add: front_def ht)
  ultimately show ?case using e ht by simp
next
  case (Suc n)
  note inv = Suc.prems
  note lt = queue_inv_lt [OF inv]
  from Suc.hyps(2) have "indices q \<noteq> []" by auto
  then have ne: "head_m q \<noteq> tail_m q" using indices_empty by blast
  define q2 where "q2 = q\<lparr>slots_m := (slots_m q)(tail_m q + kPadding s := None),
            tail_m := (tail_m q + 1) mod capacity_m q,
            events := events q @ [Destroy (tail_m q + kPadding s) (slots_m q (tail_m q + kPadding s))]\<rparr>"
  have p: "pop s q = Inr q2" by (simp add: q2_def pop_nonempty [OF ne])
  have inv2: "queue_inv s q2" by (rule queue_inv_pop [OF inv p])
  have ix: "indices q = tail_m q # indices q2"
    using indices_Cons [OF lt ne] by (simp add: q2_def indices_def)
  with Suc.hyps(2) have n: "n = length (indices q2)" by simp
  from Suc.hyps(1) [OF n inv2] obtain q' where
    d: "drain s q2 = Some (Inr q')"
    and ev: "events q' = events q2 @ map (\<lambda>i. Destroy (i + kPadding s) (slots_m q2 (i + kPadding s))) (indices q2)"
    and rest: "slots_m q' = (\<lambda>_. None)" "head_m q' = head_m q2" "tail_m q' = head_m q2"
      "capacity_m q' = capacity_m q2"
    by blast
  have "distinct (indices q)" by (rule distinct_indices [OF lt])
  then have notin: "tail_m q \<notin> set (indices q2)" by (simp add: ix)
  have same: "slots_m q2 (i + kPadding s) = slots_m q (i + kPadding s)" if "i \<in> set (indices q2)" for i
  proof -
    from that notin have "i \<noteq> tail_m q" by auto
    then show ?thesis by (simp add: q2_def)
  qed
  have "map (\<lambda>i. Destroy (i + kPadding s) (slots_m q2 (i + kPadding s))) (indices q2) =
        map (\<lambda>i. Destroy (i + kPadding s) (slots_m q (i + kPadding s))) (indices q2)"
    using same by simp
  with ev have ev': "events q' =
      events q @ map (\<lambda>i. Destroy (i + kPadding s) (slots_m q (i + kPadding s))) (indices q)"
    by (simp add: ix) (simp add: q2_def)
  have "drain s q = Some (Inr q')"
    by (subst drain.simps) (simp add: front_def ne p d)
  with ev' rest show ?case by (simp add: q2_def)
qed

subsection \<open>Further facts about single operations\<close>

lemma front_empty: "head_m q = tail_m q \<Longrightarrow> front s q = (None, q)"
  by (simp add: front_def)

lemma front_nonempty: "head_m q \<noteq> tail_m q \<Longrightarrow> front s q = (Some (tail_m q + kPadding s), q)"
  by (simp add: front_def)

lemma tail_slot_live:
  assumes "queue_inv s q" "head_m q \<noteq> tail_m q"
  shows "\<exists>x. slots_m q (tail_m q + kPadding s) = Some x \<and> contents s q \<noteq> [] \<and>
    hd (contents s q) = Some x"
proof -
  note lt = queue_inv_lt [OF assms(1)]
  from indices_Cons [OF lt assms(2)] obtain js where js: "indices q = tail_m q # js" by blast
  then have "tail_m q \<in> set (indices q)" by simp
  with assms(1) have "slots_m q (tail_m q + kPadding s) \<noteq> None"
    by (simp add: queue_inv_def)
  then show ?thesis by (auto simp: contents_def js)
qed

lemma unat_size_q:
  assumes "head_m q < capacity_m q" "tail_m q < capacity_m q" "capacity_m q \<le> 2 ^ 63"
  shows "unat (size_q q) = length (indices q)"
proof -
  define H T C where "H = unat (head_m q)" and "T = unat (tail_m q)" and "C = unat (capacity_m q)"
  have b: "H < C" "T < C"
    using assms by (simp_all add: H_def T_def C_def word_less_nat_alt)
  have "int ((H + C - T) mod C) = (int H + int C - int T) mod int C"
    using b by (simp add: zmod_int of_nat_diff)
  also have "\<dots> = (int H - int T) mod int C"
    by (metis add_diff_eq diff_add_eq mod_add_self2)
  finally have "int (length (indices q)) = (int H - int T) mod int C"
    by (simp add: length_indices [OF assms(1,2)] H_def T_def C_def)
  also have "\<dots> = uint (size_q q)"
    by (simp add: uint_size_q [OF assms] H_def T_def C_def)
  finally have "int (length (indices q)) = uint (size_q q)" .
  then show ?thesis by (metis nat_int unat_eq_nat_uint)
qed

lemma head_slot_free:
  assumes "queue_inv s q"
  shows "slots_m q (head_m q + kPadding s) = None"
proof -
  from assms have "slots_m q (head_m q + kPadding s) \<noteq> None \<longleftrightarrow>
      (head_m q + kPadding s) - kPadding s \<in> set (indices q)"
    unfolding queue_inv_def by blast
  with head_notin_indices [OF queue_inv_lt [OF assms]] show ?thesis by simp
qed

subsection \<open>Sequences of calls\<close>

lemma perform_inv:
  assumes "queue_inv s q" "perform s c q = Some (Inr (r, q'))"
  shows "queue_inv s q'"
proof -
  have "Some (the x) = x" if "x \<in> set (contents s q)" for x
    by (cases x) (use that contents_live [OF assms(1)] in auto)
  then have "map (\<lambda>x. Some (the x)) (contents s q) = contents s q"
    by (rule map_idI)
  then have "contents s q = map Some (map the (contents s q))"
    by (simp add: comp_def)
  from call_step [OF assms this] show ?thesis by blast
qed

lemma perform_capacity:
  assumes "perform s c q = Some (Inr (r, q'))"
  shows "capacity_m q' = capacity_m q"
  using assms
  by (cases c)
     (auto simp: emplace_eq push_def try_push_def try_emplace_def front_def pop_def Let_def
           split: prod.splits bool.splits option.splits sum.splits if_splits)

lemma run_inv:
  assumes "queue_inv s q" "run s cs q = Some (Inr (rs, q'))"
  shows "queue_inv s q' \<and> capacity_m q' = capacity_m q"
  using assms
proof (induction cs arbitrary: q rs)
  case Nil
  then show ?case by simp
next
  case (Cons c cs)
  from Cons.prems(2) obtain r q1 rs' where
    c: "perform s c q = Some (Inr (r, q1))" and
    r: "run s cs q1 = Some (Inr (rs', q'))"
    by (rule run_Cons_Inr)
  from Cons.IH [OF perform_inv [OF Cons.prems(1) c] r] perform_capacity [OF c]
  show ?case by simp
qed

lemma in_storage_index:
  assumes "i < c" "unat c + unat (kPadding s) \<le> 2 ^ 64"
  shows "in_storage s c (i + kPadding s)"
proof -
  from assms have "unat i + unat (kPadding s) < 2 ^ 64"
    by (simp add: word_less_nat_alt)
  then have "unat (i + kPadding s) = unat i + unat (kPadding s)"
    using unat_add_lem [of i "kPadding s"] by simp
  with assms(1) show ?thesis by (simp add: in_storage_def word_less_nat_alt)
qed

lemma try_emplace_events:
  assumes "head_m q < capacity_m q" "unat (capacity_m q) + unat (kPadding s) \<le> 2 ^ 64"
    "list_all (event_in_storage s (capacity_m q)) (events q)"
    "try_emplace s v q = (b, q')"
  shows "capacity_m q' = capacity_m q \<and> list_all (event_in_storage s (capacity_m q')) (events q')"
proof (cases "(head_m q + 1) mod capacity_m q = tail_m q")
  case True
  with assms(4) have "q' = q" by (simp add: try_emplace_full)
  with assms(3) show ?thesis by simp
next
  case False
  with assms(4) have "events q' = events q @ [Construct (head_m q + kPadding s) v]"
    "capacity_m q' = capacity_m q"
    by (auto simp: try_emplace_space)
  with assms(3) in_storage_index [OF assms(1,2)] show ?thesis by simp
qed

lemma perform_events:
  assumes "queue_inv s q" "unat (capacity_m q) + unat (kPadding s) \<le> 2 ^ 64"
    "list_all (event_in_storage s (capacity_m q)) (events q)"
    "perform s c q = Some (Inr (r, q'))"
  shows "capacity_m q' = capacity_m q \<and> list_all (event_in_storage s (capacity_m q')) (events q')"
proof (cases c)
  case (Emplace v)
  with assms(4) have "try_emplace s v q = (True, q')"
    by (auto simp: emplace_eq split: prod.splits bool.splits option.splits)
  from try_emplace_events [OF queue_inv_lt(1) [OF assms(1)] assms(2,3) this] show ?thesis .
next
  case (Push v)
  with assms(4) have "try_emplace s v q = (True, q')"
    by (auto simp: push_def emplace_eq split: prod.splits bool.splits option.splits)
  from try_emplace_events [OF queue_inv_lt(1) [OF assms(1)] assms(2,3) this] show ?thesis .
next
  case (Try_emplace v)
  with assms(4) obtain b where "try_emplace s v q = (b, q')" by (auto split: prod.splits)
  from try_emplace_events [OF queue_inv_lt(1) [OF assms(1)] assms(2,3) this] show ?thesis .
next
  case (Try_push v)
  with assms(4) obtain b where "try_emplace s v q = (b, q')"
    by (auto simp: try_push_def split: prod.splits)
  from try_emplace_events [OF queue_inv_lt(1) [OF assms(1)] assms(2,3) this] show ?thesis .
next
  case Front
  with assms(4) have "q' = q" by (auto simp: front_def Let_def split: if_splits)
  with assms(3) show ?thesis by simp
next
  case Pop
  with assms(4) have p: "pop s q = Inr q'" by (auto split: sum.splits)
  then have ne: "head_m q \<noteq> tail_m q" by (auto simp: pop_def split: if_splits)
  from p have "events q' = events q @
      [Destroy (tail_m q + kPadding s) (slots_m q (tail_m q + kPadding s))]"
    "capacity_m q' = capacity_m q"
    by (auto simp: pop_nonempty [OF ne])
  with assms(3) in_storage_index [OF queue_inv_lt(2) [OF assms(1)] assms(2)] show ?thesis by simp
next
  case Size
  with assms(4) have "q' = q" by auto
  with assms(3) show ?thesis by simp
next
  case Empty
  with assms(4) have "q' = q" by auto
  with assms(3) show ?thesis by simp
next
  case Capacity
  with assms(4) have "q' = q" by auto
  with assms(3) show ?thesis by simp
qed

lemma run_events:
  assumes "queue_inv s q" "unat (capacity_m q) + unat (kPadding s) \<le> 2 ^ 64"
    "list_all (event_in_storage s (capacity_m q)) (events q)"
    "run s cs q = Some (Inr (rs, q'))"
  shows "list_all (event_in_storage s (capacity_m q')) (events q')"
  using assms
proof (induction cs arbitrary: q rs)
  case Nil
  then show ?case by simp
next
  case (Cons c cs)
  from Cons.prems(4) obtain r q1 rs' where
    c: "perform s c q = Some (Inr (r, q1))" and
    r: "run s cs q1 = Some (Inr (rs', q'))"
    by (rule run_Cons_Inr)
  from perform_events [OF Cons.prems(1,2,3) c]
  have e: "capacity_m q1 = capacity_m q" "list_all (event_in_storage s (capacity_m q1)) (events q1)"
    by blast+
  from Cons.prems(2) e(1) have b: "unat (capacity_m q1) + unat (kPadding s) \<le> 2 ^ 64" by simp
  from Cons.IH [OF perform_inv [OF Cons.prems(1) c] b e(2) r] show ?case .
qed

lemma live_in_storage:
  assumes "queue_inv s q" "unat (capacity_m q) + unat (kPadding s) \<le> 2 ^ 64" "p \<in> live q"
  shows "in_storage s (capacity_m q) p"
proof -
  from assms(1,3) have "p - kPadding s \<in> set (indices q)"
    by (simp add: queue_inv_def live_def)
  then have "p - kPadding s < capacity_m q"
    by (rule indices_lt [OF queue_inv_lt [OF assms(1)]])
  from in_storage_index [OF this assms(2)] show ?thesis by simp
qed

subsection \<open>Queues from an exact request\<close>

lemma request_exact_bound:
  assumes "request_exact s c"
  shows "unat c + 2 * unat (kPadding s) \<le> unat (s * (c + 2 * kPadding s))"
    "unat c + unat (kPadding s) \<le> 2 ^ 64"
proof -
  define n where "n = unat c + 2 * unat (kPadding s)"
  from assms have s: "1 \<le> unat s" and e: "unat (s * (c + 2 * kPadding s)) = unat s * n"
    by (simp_all add: request_exact_def n_def word_le_nat_alt)
  from s have "n \<le> unat s * n" by simp
  with e show 1: "unat c + 2 * unat (kPadding s) \<le> unat (s * (c + 2 * kPadding s))"
    by (simp add: n_def)
  have "unat (s * (c + 2 * kPadding s)) < 2 ^ 64"
    using unsigned_less [of "s * (c + 2 * kPadding s)", where 'a = nat] by simp
  with 1 show "unat c + unat (kPadding s) \<le> 2 ^ 64" by simp
qed

lemma sound_capacity:
  assumes "serves_objects malloc" "request_exact s c" "SPSCQueue_ctor s malloc c = Inr q0"
  shows "capacity_m q0 = c" "c \<le> 2 ^ 63"
proof -
  from queue_inv_ctor [OF assms(3)] show "capacity_m q0 = c" by simp
  from assms(3) have "malloc (s * (c + 2 * kPadding s))"
    by (auto simp: SPSCQueue_ctor_def Let_def split: if_splits)
  with assms(1) have "unat (s * (c + 2 * kPadding s)) \<le> 2 ^ 63 - 1"
    by (simp add: serves_objects_def PTRDIFF_MAX_def)
  with request_exact_bound(1) [OF assms(2)] have "unat c \<le> 2 ^ 63 - 1" by simp
  then show "c \<le> 2 ^ 63" by (simp add: word_le_nat_alt)
qed

lemma reached:
  assumes "construct_and_run s malloc c cs = Some (Inr (rs, q))"
  shows "\<exists>q0. SPSCQueue_ctor s malloc c = Inr q0 \<and> run s cs q0 = Some (Inr (rs, q)) \<and>
     queue_inv s q \<and> capacity_m q = c \<and> 2 \<le> c \<and> events q0 = []"
proof -
  from assms obtain q0 where c: "SPSCQueue_ctor s malloc c = Inr q0"
    and r: "run s cs q0 = Some (Inr (rs, q))"
    by (auto simp: construct_and_run_def split: sum.splits)
  from queue_inv_ctor [OF c] have i: "queue_inv s q0" "capacity_m q0 = c" "events q0 = []"
    by simp_all
  from run_inv [OF i(1) r] i(2) have j: "queue_inv s q" "capacity_m q = c" by simp_all
  from j have "2 \<le> c" by (auto simp: queue_inv_def)
  with c r i j show ?thesis by blast
qed

subsection \<open>The destructor\<close>

lemma drain_run:
  assumes "queue_inv s q"
  shows "\<exists>rs qd. run s (replicate (length (indices q)) Pop) q = Some (Inr (rs, qd)) \<and>
     drain s q = Some (Inr qd)"
  using assms
proof (induction "length (indices q)" arbitrary: q)
  case 0
  note lt = queue_inv_lt [OF "0.prems"]
  from 0 have e: "indices q = []" by simp
  with indices_nonempty [OF lt] have ht: "head_m q = tail_m q" by blast
  have "drain s q = Some (Inr q)"
    by (subst drain.simps) (simp add: front_def ht)
  then show ?case by (simp add: e)
next
  case (Suc n)
  note inv = Suc.prems
  note lt = queue_inv_lt [OF inv]
  from Suc.hyps(2) have "indices q \<noteq> []" by auto
  then have ne: "head_m q \<noteq> tail_m q" using indices_empty by blast
  from pop_nonempty [OF ne] obtain q2 where p: "pop s q = Inr q2" by blast
  have inv2: "queue_inv s q2" by (rule queue_inv_pop [OF inv p])
  have "indices q = tail_m q # indices q2"
    using indices_Cons [OF lt ne] p by (simp add: pop_nonempty [OF ne] indices_def) (auto simp: indices_def)
  with Suc.hyps(2) have n: "n = length (indices q2)" by simp
  from Suc.hyps(1) [OF n inv2] obtain rs qd where
    r: "run s (replicate (length (indices q2)) Pop) q2 = Some (Inr (rs, qd))"
    and d: "drain s q2 = Some (Inr qd)"
    by blast
  have "drain s q = Some (Inr qd)"
    by (subst drain.simps) (simp add: front_def ne p d)
  moreover have "run s (replicate (length (indices q)) Pop) q = Some (Inr (Done # rs, qd))"
    using r n Suc.hyps(2) p by (simp flip: Suc.hyps(2))
  ultimately show ?case by blast
qed

lemma dtor_events:
  assumes "queue_inv s q" "unat (capacity_m q) + unat (kPadding s) \<le> 2 ^ 64"
    "list_all (event_in_storage s (capacity_m q)) (events q)"
    "SPSCQueue_dtor s q = Some (Inr q')"
  shows "list_all (event_in_storage s (capacity_m q)) (events q')"
proof -
  from drain_total [OF assms(1)] obtain qd where
    d: "drain s q = Some (Inr qd)"
    and ev: "events qd = events q @
        map (\<lambda>i. Destroy (i + kPadding s) (slots_m q (i + kPadding s))) (indices q)"
    by blast
  from assms(4) d have "events q' = events qd @ [Free]"
    by (auto simp: SPSCQueue_dtor_def)
  moreover have "in_storage s (capacity_m q) (i + kPadding s)" if "i \<in> set (indices q)" for i
    using in_storage_index [OF indices_lt [OF queue_inv_lt [OF assms(1)] that] assms(2)] .
  ultimately show ?thesis using assms(3) by (auto simp: ev list_all_iff)
qed

subsection \<open>A run of inserts\<close>

lemma unat_succ:
  fixes i c :: size_t
  assumes "unat i + 1 < unat c"
  shows "(i + 1) mod c = i + 1" "unat (i + 1) = unat i + 1"
proof -
  have "unat c < 2 ^ 64" using unsigned_less [of c, where 'a = nat] by simp
  with assms have "unat i + unat (1 :: size_t) < 2 ^ 64" by simp
  then show u: "unat (i + 1) = unat i + 1"
    using unat_add_lem [of i 1] by simp
  with assms have "i + 1 < c" by (simp add: word_less_nat_alt)
  then show "(i + 1) mod c = i + 1" by (simp add: word_mod_less_divisor mod_word_less)
qed

lemma emplace_many_last:
  assumes "tail_m q = 0" "unat (head_m q) + Suc n < unat (capacity_m q)"
  shows "last_effect (run s (replicate (Suc n) (Emplace v)) q) =
     Some (Construct (head_m q + of_nat n + kPadding s) v)"
  using assms
proof (induction n arbitrary: q)
  case 0
  from "0.prems"(2) have lt: "unat (head_m q) + 1 < unat (capacity_m q)" by simp
  note nx = unat_succ [OF lt]
  from nx(2) have "head_m q + 1 \<noteq> 0" by (metis add_is_0 unat_0 zero_neq_one)
  with nx(1) "0.prems"(1) have nf: "(head_m q + 1) mod capacity_m q \<noteq> tail_m q" by simp
  show ?case by (simp add: emplace_eq try_emplace_space [OF nf])
next
  case (Suc n)
  from Suc.prems(2) have lt: "unat (head_m q) + 1 < unat (capacity_m q)" by simp
  note nx = unat_succ [OF lt]
  from nx(2) have "head_m q + 1 \<noteq> 0" by (metis add_is_0 unat_0 zero_neq_one)
  with nx(1) Suc.prems(1) have nf: "(head_m q + 1) mod capacity_m q \<noteq> tail_m q" by simp
  define q1 where "q1 = snd (try_emplace s v q)"
  have t: "try_emplace s v q = (True, q1)"
    by (simp add: q1_def try_emplace_space [OF nf])
  have f: "head_m q1 = head_m q + 1" "tail_m q1 = 0" "capacity_m q1 = capacity_m q"
    using nx(1) Suc.prems(1) by (simp_all add: q1_def try_emplace_space [OF nf])
  from Suc.prems(2) have "unat (head_m q1) + Suc n < unat (capacity_m q1)"
    by (simp add: f nx(2))
  from Suc.IH [OF f(2) this]
  have ih: "last_effect (run s (replicate (Suc n) (Emplace v)) q1) =
     Some (Construct (head_m q1 + of_nat n + kPadding s) v)" .
  have "run s (replicate (Suc (Suc n)) (Emplace v)) q =
      (case run s (replicate (Suc n) (Emplace v)) q1 of
             None \<Rightarrow> None
           | Some (Inl e) \<Rightarrow> Some (Inl e)
           | Some (Inr (rs, q'')) \<Rightarrow> Some (Inr (Done # rs, q'')))"
    by (simp add: emplace_eq t)
  then have "last_effect (run s (replicate (Suc (Suc n)) (Emplace v)) q) =
     last_effect (run s (replicate (Suc n) (Emplace v)) q1)"
    by (auto split: option.splits sum.splits)
  with ih show ?case by (simp add: f add.assoc add.commute add.left_commute)
qed

subsection \<open>One call in a state of the invariant\<close>

text \<open>
  What \<^verbatim>\<open>try_emplace\<close>, \<^verbatim>\<open>pop\<close> and \<^verbatim>\<open>size\<close> do in a state with both indices below the
  capacity. The value of \<^verbatim>\<open>size\<close> is the number of elements when the capacity is at most
  \<open>2 ^ 63\<close>, which \<open>sound_capacity\<close> gives for every queue from an exact request served
  by an allocator of objects.
\<close>

lemma try_emplace_in_state:
  assumes "queue_inv s q"
  shows "(fst (try_emplace s v q) \<longleftrightarrow> (head_m q + 1) mod capacity_m q \<noteq> tail_m q) \<and>
    (capacity_m q \<le> 2 ^ 63 \<longrightarrow>
       (fst (try_emplace s v q) \<longleftrightarrow> unat (size_q q) < unat (capacity_m q) - 1)) \<and>
    (fst (try_emplace s v q) \<longrightarrow>
       slots_m q (head_m q + kPadding s) = None \<and>
       snd (try_emplace s v q) =
         q\<lparr>slots_m := (slots_m q)(head_m q + kPadding s \<mapsto> v),
           head_m := (head_m q + 1) mod capacity_m q,
           events := events q @ [Construct (head_m q + kPadding s) v]\<rparr> \<and>
       card (live (snd (try_emplace s v q))) = card (live q) + 1 \<and>
       (capacity_m q \<le> 2 ^ 63 \<longrightarrow>
          unat (size_q (snd (try_emplace s v q))) = unat (size_q q) + 1)) \<and>
    (\<not> fst (try_emplace s v q) \<longrightarrow> snd (try_emplace s v q) = q) \<and>
    try_push s v q = try_emplace s v q \<and>
    card (live q) \<le> unat (capacity_m q) - 1 \<and>
    (card (live q) = unat (capacity_m q) - 1 \<longrightarrow> \<not> fst (try_emplace s v q))"
proof -
  note lt = queue_inv_lt [OF assms]
  let ?full = "(head_m q + 1) mod capacity_m q = tail_m q"
  let ?q' = "snd (try_emplace s v q)"
  have ok: "fst (try_emplace s v q) \<longleftrightarrow> \<not> ?full"
    by (simp add: try_emplace_def Let_def)
  have len: "\<not> ?full \<longleftrightarrow> length (indices q) < unat (capacity_m q) - 1"
    using full_iff_length [OF lt] length_indices_le [OF lt] by auto
  have sz: "fst (try_emplace s v q) \<longleftrightarrow> unat (size_q q) < unat (capacity_m q) - 1"
    if "capacity_m q \<le> 2 ^ 63"
    using ok len by (simp add: unat_size_q [OF lt that])
  have inv': "queue_inv s ?q'" by (rule queue_inv_try_emplace [OF assms])
  have grow: "length (indices ?q') = length (indices q) + 1" if "\<not> ?full"
    using indices_snoc [OF lt that] by (simp add: try_emplace_space [OF that] indices_def)
  have cap': "capacity_m ?q' = capacity_m q"
    by (simp add: try_emplace_def Let_def)
  have succ: "slots_m q (head_m q + kPadding s) = None \<and>
       ?q' = q\<lparr>slots_m := (slots_m q)(head_m q + kPadding s \<mapsto> v),
           head_m := (head_m q + 1) mod capacity_m q,
           events := events q @ [Construct (head_m q + kPadding s) v]\<rparr> \<and>
       card (live ?q') = card (live q) + 1 \<and>
       (capacity_m q \<le> 2 ^ 63 \<longrightarrow> unat (size_q ?q') = unat (size_q q) + 1)"
    if "fst (try_emplace s v q)"
  proof -
    from that ok have nf: "\<not> ?full" by simp
    have "card (live ?q') = card (live q) + 1"
      using grow [OF nf] by (simp add: card_live [OF inv'] card_live [OF assms])
    moreover have "unat (size_q ?q') = unat (size_q q) + 1" if c: "capacity_m q \<le> 2 ^ 63"
    proof -
      from c cap' have c': "capacity_m ?q' \<le> 2 ^ 63" by simp
      show ?thesis
        using grow [OF nf]
        by (simp add: unat_size_q [OF queue_inv_lt [OF inv'] c'] unat_size_q [OF lt c])
    qed
    ultimately show ?thesis
      using head_slot_free [OF assms] by (simp add: try_emplace_space [OF nf])
  qed
  have fail: "?q' = q" if "\<not> fst (try_emplace s v q)"
    using that ok by (simp add: try_emplace_full)
  have bound: "card (live q) \<le> unat (capacity_m q) - 1"
    using length_indices_le [OF lt] by (simp add: card_live [OF assms])
  have atfull: "\<not> fst (try_emplace s v q)" if "card (live q) = unat (capacity_m q) - 1"
    using that ok full_iff_length [OF lt] by (simp add: card_live [OF assms])
  have tp: "try_push s v q = try_emplace s v q" by (simp add: try_push_def)
  from ok sz succ fail tp bound atfull show ?thesis by blast
qed

lemma pop_in_state:
  assumes "queue_inv s q"
  shows "(head_m q \<noteq> tail_m q \<longrightarrow>
      (\<exists>x q'. pop s q = Inr q' \<and>
         slots_m q (tail_m q + kPadding s) = Some x \<and>
         q' = q\<lparr>slots_m := (slots_m q)(tail_m q + kPadding s := None),
                tail_m := (tail_m q + 1) mod capacity_m q,
                events := events q @ [Destroy (tail_m q + kPadding s) (Some x)]\<rparr> \<and>
         head_m q' = head_m q \<and>
         tail_m q' = (tail_m q + 1) mod capacity_m q \<and>
         card (live q') + 1 = card (live q) \<and>
         (capacity_m q \<le> 2 ^ 63 \<longrightarrow> unat (size_q q') + 1 = unat (size_q q)))) \<and>
    (head_m q = tail_m q \<longrightarrow> pop s q = Inl assertion_failed)"
proof (intro conjI impI)
  assume ne: "head_m q \<noteq> tail_m q"
  note lt = queue_inv_lt [OF assms]
  from tail_slot_live [OF assms ne] obtain x where
    x: "slots_m q (tail_m q + kPadding s) = Some x" by blast
  define q' where "q' = q\<lparr>slots_m := (slots_m q)(tail_m q + kPadding s := None),
                tail_m := (tail_m q + 1) mod capacity_m q,
                events := events q @ [Destroy (tail_m q + kPadding s) (Some x)]\<rparr>"
  have p: "pop s q = Inr q'"
    by (simp add: pop_nonempty [OF ne] q'_def x)
  have inv': "queue_inv s q'" by (rule queue_inv_pop [OF assms p])
  have ix: "indices q = tail_m q # indices q'"
    using indices_Cons [OF lt ne] by (simp add: q'_def indices_def)
  have card: "card (live q') + 1 = card (live q)"
    by (simp add: card_live [OF inv'] card_live [OF assms] ix)
  have sz: "unat (size_q q') + 1 = unat (size_q q)" if c: "capacity_m q \<le> 2 ^ 63"
  proof -
    from c have c': "capacity_m q' \<le> 2 ^ 63" by (simp add: q'_def)
    show ?thesis
      by (simp add: unat_size_q [OF queue_inv_lt [OF inv'] c'] unat_size_q [OF lt c] ix)
  qed
  have "head_m q' = head_m q" "tail_m q' = (tail_m q + 1) mod capacity_m q"
    by (simp_all add: q'_def)
  with p x card sz show "\<exists>x q'. pop s q = Inr q' \<and>
         slots_m q (tail_m q + kPadding s) = Some x \<and>
         q' = q\<lparr>slots_m := (slots_m q)(tail_m q + kPadding s := None),
                tail_m := (tail_m q + 1) mod capacity_m q,
                events := events q @ [Destroy (tail_m q + kPadding s) (Some x)]\<rparr> \<and>
         head_m q' = head_m q \<and>
         tail_m q' = (tail_m q + 1) mod capacity_m q \<and>
         card (live q') + 1 = card (live q) \<and>
         (capacity_m q \<le> 2 ^ 63 \<longrightarrow> unat (size_q q') + 1 = unat (size_q q))"
    unfolding q'_def by blast
next
  assume "head_m q = tail_m q"
  then show "pop s q = Inl assertion_failed" by (rule pop_empty)
qed

lemma size_in_state:
  assumes "head_m q < capacity_m q" "tail_m q < capacity_m q"
  shows "(capacity_m q \<le> 2 ^ 63 \<longrightarrow>
            uint (size_q q) = (uint (head_m q) - uint (tail_m q)) mod uint (capacity_m q) \<and>
            uint (size_q q) =
              (if uint (head_m q) - uint (tail_m q) < 0
               then uint (head_m q) - uint (tail_m q) + uint (capacity_m q)
               else uint (head_m q) - uint (tail_m q))) \<and>
         size_q q < capacity_m q \<and>
         (empty_q q \<longleftrightarrow> size_q q = 0) \<and>
         (empty_q q \<longleftrightarrow> head_m q = tail_m q)"
proof (intro conjI impI)
  assume c: "capacity_m q \<le> 2 ^ 63"
  show m: "uint (size_q q) = (uint (head_m q) - uint (tail_m q)) mod uint (capacity_m q)"
    by (rule uint_size_q [OF assms c])
  define h t C where "h = uint (head_m q)" and "t = uint (tail_m q)" and "C = uint (capacity_m q)"
  have b: "0 \<le> h" "0 \<le> t" "h < C" "t < C"
    using assms by (simp_all add: h_def t_def C_def word_less_def)
  have "(h - t) mod C = (if h - t < 0 then h - t + C else h - t)"
  proof (cases "h - t < 0")
    case True
    have "(h - t) mod C = h - t + C"
      by (rule int_mod_pos_eq [where q = "-1"]) (use True b in simp_all)
    with True show ?thesis by simp
  next
    case False
    with b have "(h - t) mod C = h - t" by (intro mod_pos_pos_trivial) simp_all
    with False show ?thesis by simp
  qed
  then show "uint (size_q q) =
              (if uint (head_m q) - uint (tail_m q) < 0
               then uint (head_m q) - uint (tail_m q) + uint (capacity_m q)
               else uint (head_m q) - uint (tail_m q))"
    unfolding m h_def t_def C_def .
next
  show "size_q q < capacity_m q" by (rule size_q_lt [OF assms])
  show "empty_q q \<longleftrightarrow> size_q q = 0" by (simp add: empty_q_def)
  show "empty_q q \<longleftrightarrow> head_m q = tail_m q"
    by (simp add: empty_q_def size_q_zero_iff [OF assms])
qed

subsection \<open>The padding\<close>

lemma kPadding_rounds_up:
  assumes "1 \<le> s"
  shows "unat (kPadding s) = 127 div unat s + 1 \<and>
         unat (kPadding s) = (128 + unat s - 1) div unat s \<and>
         1 \<le> unat (kPadding s) \<and>
         128 \<le> unat (kPadding s) * unat s \<and>
         (unat (kPadding s) - 1) * unat s < 128"
proof -
  define n where "n = unat s"
  from assms have n: "1 \<le> n" by (simp add: n_def word_le_nat_alt)
  define m where "m = 127 div n"
  have d: "unat (127 div s) = m" by (simp add: m_def n_def unat_div)
  have "m \<le> 127" by (simp add: m_def)
  then have "unat (127 div s) + unat (1 :: size_t) < 2 ^ 64" by (simp add: d)
  then have "unat (127 div s + 1) = unat (127 div s) + unat (1 :: size_t)"
    using unat_add_lem [of "127 div s" 1] by simp
  then have k: "unat (kPadding s) = 127 div n + 1"
    by (simp add: kPadding_def kCacheLineSize_def d) (simp add: m_def)
  have "(128 + n - 1) div n = (127 + n) div n" by simp
  also have "\<dots> = 127 div n + 1" using n div_add_self2 [of n 127] by simp
  finally have c: "(128 + n - 1) div n = 127 div n + 1" .
  define r where "r = 127 mod n"
  have e: "127 = m * n + r" by (simp add: m_def r_def)
  have "r < n" using n by (simp add: r_def)
  with e have up: "128 \<le> (m + 1) * n" by (simp add: algebra_simps)
  from e have lo: "(m + 1 - 1) * n < 128" by simp
  from k c up lo show ?thesis by (simp add: n_def m_def)
qed

lemma kPadding_4: "kPadding 4 = 32"
  by (simp add: kPadding_def kCacheLineSize_def)

subsection \<open>The example states\<close>

lemma queue_inv_none_of_four: "queue_inv 4 none_of_four"
  by (simp add: queue_inv_def none_of_four_def indices_def ring_def)

lemma queue_inv_one_of_four: "queue_inv 4 one_of_four"
proof -
  have i: "indices one_of_four = [0]" by (simp add: one_of_four_def indices_def ring_def)
  have "(p = 32) = (p - 32 = 0)" for p :: size_t by (simp add: diff_eq_eq)
  then show ?thesis
    by (simp add: queue_inv_def i kPadding_4) (simp add: one_of_four_def)
qed

lemma queue_inv_two_wrapped: "queue_inv 4 two_wrapped"
proof -
  have i: "indices two_wrapped = [3, 0]"
    by (simp add: two_wrapped_def indices_def ring_def)
  have "(p - 32 = a) = (p = a + 32)" for p a :: size_t by (simp add: diff_eq_eq)
  then show ?thesis
    by (simp add: queue_inv_def i kPadding_4) (auto simp: two_wrapped_def)
qed

lemma ctor_none_of_four:
  "SPSCQueue_ctor 4 always 4 = Inr none_of_four"
  by (simp add: SPSCQueue_ctor_def always_def none_of_four_def)

lemma construct_and_run_scenario:
  "\<exists>q. construct_and_run 4 always 4 scenario = Some (Inr (scenario_results, q))"
  unfolding construct_and_run_def ctor_none_of_four
  by (simp add: scenario_def scenario_results_def none_of_four_def emplace_eq push_def
      try_push_def try_emplace_def front_def pop_def size_q_def empty_q_def capacity_def
      kPadding_4 Let_def)

lemma run_scenario:
  "\<exists>q. run 4 scenario none_of_four = Some (Inr (scenario_results, q))"
  by (simp add: scenario_def scenario_results_def none_of_four_def emplace_eq push_def
      try_push_def try_emplace_def front_def pop_def size_q_def empty_q_def capacity_def
      kPadding_4 Let_def)

lemma serves_objects_small_heap: "serves_objects small_heap"
  by (simp add: serves_objects_def small_heap_def PTRDIFF_MAX_def word_le_nat_alt)

lemma request_exact_4_4: "request_exact 4 4"
  by (simp add: request_exact_def kPadding_4)

lemma small_ctor: "SPSCQueue_ctor 4 small_heap 4 = Inr none_of_four"
  by (simp add: SPSCQueue_ctor_def small_heap_def none_of_four_def kPadding_4)

lemma reach_none_of_four:
  "construct_and_run 4 small_heap 4 [] = Some (Inr ([], none_of_four))"
  unfolding construct_and_run_def small_ctor by simp

lemma reach_one_of_four:
  "construct_and_run 4 small_heap 4 [Emplace 7] = Some (Inr ([Done], one_of_four))"
  unfolding construct_and_run_def small_ctor
  by (simp add: none_of_four_def one_of_four_def emplace_eq try_emplace_def kPadding_4 Let_def)

lemma reach_three_of_four:
  "construct_and_run 4 small_heap 4 [Emplace 1, Push 2, Try_emplace 3] =
     Some (Inr ([Done, Done, Success True], three_of_four))"
  unfolding construct_and_run_def small_ctor
  by (simp add: none_of_four_def three_of_four_def emplace_eq push_def try_emplace_def
      kPadding_4 Let_def)

lemma small_scenario:
  "\<exists>q. construct_and_run 4 small_heap 4 scenario = Some (Inr (scenario_results, q))"
  unfolding construct_and_run_def small_ctor using run_scenario by simp

section \<open>The claims\<close>

subsection \<open>Construction\<close>

text \<open>
  Claim C3. Construction with a requested capacity of 0 or 1 (any capacity below 2) ends
  with \<^verbatim>\<open>std::invalid_argument\<close>, the InvalidCapacity condition. With a capacity of at
  least 2 it ends with \<^verbatim>\<open>std::bad_alloc\<close>, the AllocationFailure condition, when
  \<^verbatim>\<open>malloc\<close> returns null, and otherwise succeeds and gives a queue with both indices 0,
  \<^verbatim>\<open>size()\<close> 0, \<^verbatim>\<open>empty()\<close> true, \<^verbatim>\<open>capacity()\<close> the requested value, no live object and
  no effect on elements so far.
\<close>

theorem ctor_outcomes:
  "(requested < 2 \<longrightarrow>
      (SPSCQueue_ctor sizeof_T malloc requested :: failure + 'a SPSCQueue) = Inl invalid_argument) \<and>
   (2 \<le> requested \<and> \<not> malloc (sizeof_T * (requested + 2 * kPadding sizeof_T)) \<longrightarrow>
      (SPSCQueue_ctor sizeof_T malloc requested :: failure + 'a SPSCQueue) = Inl bad_alloc) \<and>
   (2 \<le> requested \<and> malloc (sizeof_T * (requested + 2 * kPadding sizeof_T)) \<longrightarrow>
      (\<exists>q :: 'a SPSCQueue. SPSCQueue_ctor sizeof_T malloc requested = Inr q \<and>
         head_m q = 0 \<and> tail_m q = 0 \<and> size_q q = 0 \<and> empty_q q \<and>
         capacity q = requested \<and> live q = {} \<and> events q = [] \<and> queue_inv sizeof_T q))"
proof (intro conjI impI)
  assume "requested < 2"
  then show "(SPSCQueue_ctor sizeof_T malloc requested :: failure + 'a SPSCQueue) = Inl invalid_argument"
    by (simp add: SPSCQueue_ctor_def Let_def)
next
  assume "2 \<le> requested \<and> \<not> malloc (sizeof_T * (requested + 2 * kPadding sizeof_T))"
  then show "(SPSCQueue_ctor sizeof_T malloc requested :: failure + 'a SPSCQueue) = Inl bad_alloc"
    by (simp add: SPSCQueue_ctor_def Let_def not_less [symmetric])
next
  assume a: "2 \<le> requested \<and> malloc (sizeof_T * (requested + 2 * kPadding sizeof_T))"
  define q :: "'a SPSCQueue" where
    "q = \<lparr>capacity_m = requested, slots_m = (\<lambda>_. None), head_m = 0, tail_m = 0, events = []\<rparr>"
  from a have c: "SPSCQueue_ctor sizeof_T malloc requested = Inr q"
    by (simp add: SPSCQueue_ctor_def Let_def q_def not_less [symmetric])
  from queue_inv_ctor [OF c] have "queue_inv sizeof_T q" by simp
  moreover have "size_q q = 0" "empty_q q" "capacity q = requested" "live q = {}"
    by (simp_all add: q_def size_q_def empty_q_def capacity_def live_def)
  moreover have "head_m q = 0" "tail_m q = 0" "events q = []" by (simp_all add: q_def)
  ultimately show "\<exists>q :: 'a SPSCQueue. SPSCQueue_ctor sizeof_T malloc requested = Inr q \<and>
         head_m q = 0 \<and> tail_m q = 0 \<and> size_q q = 0 \<and> empty_q q \<and>
         capacity q = requested \<and> live q = {} \<and> events q = [] \<and> queue_inv sizeof_T q"
    using c by blast
qed

theorem ctor_outcomes_witness:
  "(SPSCQueue_ctor 8 (\<lambda>n. True) 0 :: failure + nat SPSCQueue) = Inl invalid_argument \<and>
   (SPSCQueue_ctor 8 (\<lambda>n. True) 1 :: failure + nat SPSCQueue) = Inl invalid_argument \<and>
   (SPSCQueue_ctor 8 (\<lambda>n. False) 2 :: failure + nat SPSCQueue) = Inl bad_alloc \<and>
   (SPSCQueue_ctor 8 (\<lambda>n. n = 272) 2 :: failure + nat SPSCQueue) =
      Inr \<lparr>capacity_m = 2, slots_m = (\<lambda>_. None), head_m = 0, tail_m = 0, events = []\<rparr> \<and>
   size_q \<lparr>capacity_m = 2, slots_m = (\<lambda>_. None :: nat option), head_m = 0, tail_m = 0, events = []\<rparr> = 0"
proof -
  have k: "kPadding 8 = 16" by (simp add: kPadding_def kCacheLineSize_def)
  have "(SPSCQueue_ctor 8 (\<lambda>n. True) 0 :: failure + nat SPSCQueue) = Inl invalid_argument"
    using ctor_outcomes [where 'a = nat and requested = 0 and sizeof_T = 8 and malloc = "\<lambda>n. True"] by simp
  moreover have "(SPSCQueue_ctor 8 (\<lambda>n. True) 1 :: failure + nat SPSCQueue) = Inl invalid_argument"
    using ctor_outcomes [where 'a = nat and requested = 1 and sizeof_T = 8 and malloc = "\<lambda>n. True"] by simp
  moreover have "(SPSCQueue_ctor 8 (\<lambda>n. False) 2 :: failure + nat SPSCQueue) = Inl bad_alloc"
    using ctor_outcomes [where 'a = nat and requested = 2 and sizeof_T = 8 and malloc = "\<lambda>n. False"] by simp
  moreover have "\<exists>q :: nat SPSCQueue. SPSCQueue_ctor 8 (\<lambda>n. n = 272) 2 = Inr q \<and>
         head_m q = 0 \<and> tail_m q = 0 \<and> size_q q = 0 \<and> empty_q q \<and>
         capacity q = 2 \<and> live q = {} \<and> events q = [] \<and> queue_inv 8 q"
    using ctor_outcomes [where 'a = nat and requested = 2 and sizeof_T = 8 and malloc = "\<lambda>n. n = 272"] by (simp add: k)
  ultimately show ?thesis
    by (auto simp: SPSCQueue_ctor_def Let_def k size_q_def)
qed

text \<open>
  Claim C10. A requested capacity below 2 ends construction with
  \<^verbatim>\<open>std::invalid_argument\<close> whatever \<^verbatim>\<open>malloc\<close> answered: the capacity is tested before
  the pointer, so InvalidCapacity wins over AllocationFailure when both hold.
\<close>

theorem ctor_capacity_first:
  "requested < 2 \<Longrightarrow>
   (SPSCQueue_ctor sizeof_T malloc requested :: failure + 'a SPSCQueue) = Inl invalid_argument"
  by (simp add: SPSCQueue_ctor_def Let_def)

theorem ctor_capacity_first_witness:
  "(1 :: size_t) < 2 \<and>
   (SPSCQueue_ctor 8 (\<lambda>n. True) 1 :: failure + nat SPSCQueue) = Inl invalid_argument \<and>
   (SPSCQueue_ctor 8 (\<lambda>n. False) 1 :: failure + nat SPSCQueue) = Inl invalid_argument \<and>
   (SPSCQueue_ctor 8 (\<lambda>n. False) 0 :: failure + nat SPSCQueue) = Inl invalid_argument"
proof -
  have h1: "(1 :: size_t) < 2" and h0: "(0 :: size_t) < 2" by simp_all
  show ?thesis
    using h1 ctor_capacity_first [OF h1, where 'a = nat and sizeof_T = 8 and malloc = "\<lambda>n. True"]
      ctor_capacity_first [OF h1, where 'a = nat and sizeof_T = 8 and malloc = "\<lambda>n. False"]
      ctor_capacity_first [OF h0, where 'a = nat and sizeof_T = 8 and malloc = "\<lambda>n. False"]
    by blast
qed

subsection \<open>Order of delivery\<close>

text \<open>
  Claim C1. Construct a queue and make any sequence of calls of \<^verbatim>\<open>emplace\<close>,
  \<^verbatim>\<open>push\<close>, \<^verbatim>\<open>try_emplace\<close>, \<^verbatim>\<open>try_push\<close>, \<^verbatim>\<open>front\<close>, \<^verbatim>\<open>pop\<close> and the three
  inspecting members, in any order, in which every call returns (no \<^verbatim>\<open>emplace\<close> on a
  full queue, no \<^verbatim>\<open>pop\<close> on an empty one). Then what the caller saw obeys the FIFO law: every \<^verbatim>\<open>front\<close> shows the
  oldest value inserted and not yet removed, and null exactly when there is none. The
  values constructed are exactly the values of the successful inserts, in call order,
  once each; the objects destroyed by \<^verbatim>\<open>pop\<close>, in order, followed by the objects still in
  the queue from \<open>tail\<close> to \<open>head\<close>, are those same values in the same order.
\<close>

theorem fifo_order:
  assumes "construct_and_run s malloc c cs = Some (Inr (rs, q))"
  shows "fifo_law [] cs rs \<and>
         constructed (events q) = accepted cs rs \<and>
         map Some (accepted cs rs) = destroyed (events q) @ contents s q"
proof -
  from assms obtain q0 where c: "SPSCQueue_ctor s malloc c = Inr q0"
    and r: "run s cs q0 = Some (Inr (rs, q))"
    by (auto simp: construct_and_run_def split: sum.splits)
  from queue_inv_ctor [OF c] have inv: "queue_inv s q0" and e: "events q0 = []"
    and z: "head_m q0 = tail_m q0"
    by simp_all
  from z have c0: "contents s q0 = map Some []" by (simp add: contents_def indices_empty)
  from run_fifo [OF inv r c0] show ?thesis by (simp add: e c0)
qed

theorem fifo_order_witness:
  "observations (construct_and_run 4 always 4 scenario) = Some (Inr scenario_results) \<and>
   fifo_law [] scenario scenario_results \<and>
   (\<exists>q. construct_and_run 4 always 4 scenario = Some (Inr (scenario_results, q)) \<and>
        constructed (events q) = [1, 2, 3, 4] \<and>
        destroyed (events q) = [Some 1, Some 2, Some 3, Some 4] \<and>
        contents 4 q = [])"
proof -
  from construct_and_run_scenario obtain q where
    r: "construct_and_run 4 always 4 scenario = Some (Inr (scenario_results, q))" by blast
  from fifo_order [OF r]
  have f: "fifo_law [] scenario scenario_results"
    and c: "constructed (events q) = accepted scenario scenario_results"
    and d: "map Some (accepted scenario scenario_results) = destroyed (events q) @ contents 4 q"
    by simp_all
  have a: "accepted scenario scenario_results = [1, 2, 3, 4]"
    by (simp add: scenario_def scenario_results_def)
  from c a have "length (constructed (events q)) = 4" by simp
  have o: "observations (construct_and_run 4 always 4 scenario) = Some (Inr scenario_results)"
    by (simp add: r)
  have "length (destroyed (events q)) = 4"
    using r unfolding construct_and_run_def ctor_none_of_four
    by (simp add: scenario_def scenario_results_def none_of_four_def emplace_eq push_def
      try_push_def try_emplace_def front_def pop_def size_q_def empty_q_def capacity_def
      kPadding_4 Let_def) auto
  moreover from arg_cong [OF d, of length] a
  have "length (destroyed (events q)) + length (contents 4 q) = 4" by simp
  ultimately have n: "contents 4 q = []" by simp
  with d a have "destroyed (events q) = [Some 1, Some 2, Some 3, Some 4]" by simp
  with n r f c a o show ?thesis by auto
qed

subsection \<open>Insertion without blocking\<close>

text \<open>
  Claim C2. Take a queue constructed with capacity \<open>c\<close>, from an exact request served by
  an allocator of objects, in the state after any sequence of calls that returned. Then
  \<open>c\<close> is at least 2 and is what \<^verbatim>\<open>capacity()\<close> returns, and \<^verbatim>\<open>try_emplace\<close> succeeds
  exactly when \<^verbatim>\<open>size() < c - 1\<close>, which is exactly when \<open>(head + 1) mod capacity\<close>
  differs from \<open>tail\<close>. On success the slot written held no live object, exactly one
  object is constructed there, \<open>head\<close> advances, and the number of live objects and
  \<^verbatim>\<open>size()\<close> both grow by exactly one; on failure the state, with its slots, indices and
  history, is unchanged. \<^verbatim>\<open>try_push\<close> is \<^verbatim>\<open>try_emplace\<close>. At most \<open>c - 1\<close> objects are
  live, and with that many the call fails.
\<close>

theorem try_emplace_bounded:
  fixes q :: "'a SPSCQueue"
  assumes "serves_objects malloc" "request_exact s c"
    and "construct_and_run s malloc c cs = Some (Inr (rs, q))"
  shows "2 \<le> c \<and> capacity q = c \<and>
    (fst (try_emplace s v q) \<longleftrightarrow> unat (size_q q) < unat c - 1) \<and>
    (fst (try_emplace s v q) \<longleftrightarrow> (head_m q + 1) mod capacity_m q \<noteq> tail_m q) \<and>
    (fst (try_emplace s v q) \<longrightarrow>
       slots_m q (head_m q + kPadding s) = None \<and>
       snd (try_emplace s v q) =
         q\<lparr>slots_m := (slots_m q)(head_m q + kPadding s \<mapsto> v),
           head_m := (head_m q + 1) mod capacity_m q,
           events := events q @ [Construct (head_m q + kPadding s) v]\<rparr> \<and>
       card (live (snd (try_emplace s v q))) = card (live q) + 1 \<and>
       unat (size_q (snd (try_emplace s v q))) = unat (size_q q) + 1) \<and>
    (\<not> fst (try_emplace s v q) \<longrightarrow> snd (try_emplace s v q) = q) \<and>
    try_push s v q = try_emplace s v q \<and>
    card (live q) \<le> unat c - 1 \<and>
    (card (live q) = unat c - 1 \<longrightarrow> \<not> fst (try_emplace s v q))"
proof -
  from reached [OF assms(3)] obtain q0 :: "'a SPSCQueue" where
    c: "SPSCQueue_ctor s malloc c = Inr q0" and inv: "queue_inv s q"
    and cap: "capacity_m q = c" and two: "2 \<le> c"
    by blast
  from sound_capacity(2) [OF assms(1,2) c] cap have le: "capacity_m q \<le> 2 ^ 63" by simp
  from two cap have two': "2 \<le> capacity_m q" by simp
  have cq: "capacity q = capacity_m q" by (simp add: capacity_def)
  from try_emplace_in_state [OF inv, of v] le two' cq show ?thesis
    unfolding cap [symmetric] by blast
qed

theorem try_emplace_bounded_witness:
  "serves_objects small_heap \<and> request_exact 4 4 \<and>
   construct_and_run 4 small_heap 4 [Emplace 7] = Some (Inr ([Done], one_of_four)) \<and>
   try_emplace 4 9 one_of_four =
     (True, \<lparr>capacity_m = 4, slots_m = (\<lambda>_. None)(32 \<mapsto> 7, 33 \<mapsto> 9), head_m = 2, tail_m = 0,
             events = [Construct 32 7, Construct 33 9]\<rparr>) \<and>
   unat (size_q one_of_four) = 1 \<and>
   unat (size_q (snd (try_emplace 4 9 one_of_four))) = 2 \<and>
   card (live one_of_four) \<le> 3 \<and>
   construct_and_run 4 small_heap 4 [Emplace 1, Push 2, Try_emplace 3] =
     Some (Inr ([Done, Done, Success True], three_of_four)) \<and>
   unat (size_q three_of_four) = 3 \<and>
   try_emplace 4 9 three_of_four = (False, three_of_four)"
proof -
  note so = serves_objects_small_heap and re = request_exact_4_4
  have f: "fst (try_emplace 4 9 one_of_four)"
    by (simp add: try_emplace_def one_of_four_def)
  have s1: "unat (size_q one_of_four) = 1" by (simp add: size_q_def one_of_four_def)
  from try_emplace_bounded [OF so re reach_one_of_four, of 9] f
  have a: "snd (try_emplace 4 9 one_of_four) =
         one_of_four\<lparr>slots_m := (slots_m one_of_four)(head_m one_of_four + kPadding 4 \<mapsto> 9),
           head_m := (head_m one_of_four + 1) mod capacity_m one_of_four,
           events := events one_of_four @ [Construct (head_m one_of_four + kPadding 4) 9]\<rparr>"
    and b: "unat (size_q (snd (try_emplace 4 9 one_of_four))) = unat (size_q one_of_four) + 1"
    and d: "card (live one_of_four) \<le> unat (4 :: size_t) - 1"
    by blast+
  from a have "snd (try_emplace 4 9 one_of_four) =
       \<lparr>capacity_m = 4, slots_m = (\<lambda>_. None)(32 \<mapsto> 7, 33 \<mapsto> 9), head_m = 2, tail_m = 0,
             events = [Construct 32 7, Construct 33 9]\<rparr>"
    by (simp add: one_of_four_def kPadding_4)
  with f have "try_emplace 4 9 one_of_four =
     (True, \<lparr>capacity_m = 4, slots_m = (\<lambda>_. None)(32 \<mapsto> 7, 33 \<mapsto> 9), head_m = 2, tail_m = 0,
             events = [Construct 32 7, Construct 33 9]\<rparr>)"
    by (metis prod.collapse)
  moreover from b s1 have "unat (size_q (snd (try_emplace 4 9 one_of_four))) = 2" by simp
  moreover from d have "card (live one_of_four) \<le> 3" by simp
  moreover have s3: "unat (size_q three_of_four) = 3" by (simp add: size_q_def three_of_four_def)
  moreover have "try_emplace 4 9 three_of_four = (False, three_of_four)"
  proof -
    from try_emplace_bounded [OF so re reach_three_of_four, of 9]
    have "fst (try_emplace 4 9 three_of_four) \<longleftrightarrow>
        unat (size_q three_of_four) < unat (4 :: size_t) - 1"
      and u: "\<not> fst (try_emplace 4 9 three_of_four) \<longrightarrow>
        snd (try_emplace 4 9 three_of_four) = three_of_four"
      by blast+
    then have n: "\<not> fst (try_emplace 4 9 three_of_four)"
      by (simp add: s3)
    with u have "snd (try_emplace 4 9 three_of_four) = three_of_four" by blast
    with n show ?thesis by (metis prod.collapse)
  qed
  ultimately show ?thesis using s1 so re reach_one_of_four reach_three_of_four by blast
qed

subsection \<open>Removal\<close>

text \<open>
  Claim C4. Take a queue constructed from an exact request served by an allocator of
  objects, in the state after any sequence of calls that returned. On a non-empty queue the
  \<^verbatim>\<open>assert\<close> of \<^verbatim>\<open>pop\<close> passes, the object at \<open>tail\<close> is live and is the one destroyed,
  \<open>tail\<close> becomes \<open>(tail + 1) mod capacity\<close>, \<open>head\<close> is unchanged, and the number of
  live objects and \<^verbatim>\<open>size()\<close> both fall by exactly one. On an empty queue the
  \<^verbatim>\<open>assert\<close> fails.
\<close>

theorem pop_contract:
  fixes q :: "'a SPSCQueue"
  assumes "serves_objects malloc" "request_exact s c"
    and "construct_and_run s malloc c cs = Some (Inr (rs, q))"
  shows "(head_m q \<noteq> tail_m q \<longrightarrow>
      (\<exists>x q'. pop s q = Inr q' \<and>
         slots_m q (tail_m q + kPadding s) = Some x \<and>
         q' = q\<lparr>slots_m := (slots_m q)(tail_m q + kPadding s := None),
                tail_m := (tail_m q + 1) mod capacity_m q,
                events := events q @ [Destroy (tail_m q + kPadding s) (Some x)]\<rparr> \<and>
         head_m q' = head_m q \<and>
         tail_m q' = (tail_m q + 1) mod capacity_m q \<and>
         card (live q') + 1 = card (live q) \<and>
         unat (size_q q') + 1 = unat (size_q q))) \<and>
    (head_m q = tail_m q \<longrightarrow> pop s q = Inl assertion_failed)"
proof -
  from reached [OF assms(3)] obtain q0 :: "'a SPSCQueue" where
    c: "SPSCQueue_ctor s malloc c = Inr q0" and inv: "queue_inv s q"
    and cap: "capacity_m q = c"
    by blast
  from sound_capacity(2) [OF assms(1,2) c] cap have le: "capacity_m q \<le> 2 ^ 63" by simp
  from pop_in_state [OF inv] le show ?thesis by blast
qed

theorem pop_contract_witness:
  "serves_objects small_heap \<and> request_exact 4 4 \<and>
   construct_and_run 4 small_heap 4 [Emplace 7] = Some (Inr ([Done], one_of_four)) \<and>
   pop 4 one_of_four =
     Inr \<lparr>capacity_m = 4, slots_m = (\<lambda>_. None), head_m = 1, tail_m = 1,
          events = [Construct 32 7, Destroy 32 (Some 7)]\<rparr> \<and>
   size_q one_of_four = 1 \<and>
   size_q \<lparr>capacity_m = 4, slots_m = (\<lambda>_. None :: nat option), head_m = 1, tail_m = 1,
          events = [Construct 32 7, Destroy 32 (Some 7)]\<rparr> = 0 \<and>
   construct_and_run 4 small_heap 4 [] = Some (Inr ([], none_of_four)) \<and>
   pop 4 none_of_four = Inl assertion_failed"
proof -
  note so = serves_objects_small_heap and re = request_exact_4_4
  have ne: "head_m one_of_four \<noteq> tail_m one_of_four" by (simp add: one_of_four_def)
  have e: "head_m none_of_four = tail_m none_of_four" by (simp add: none_of_four_def)
  from pop_contract [OF so re reach_one_of_four] ne
  obtain x q' where p: "pop 4 one_of_four = Inr q'"
    "q' = one_of_four\<lparr>slots_m := (slots_m one_of_four)(tail_m one_of_four + kPadding 4 := None),
                tail_m := (tail_m one_of_four + 1) mod capacity_m one_of_four,
                events := events one_of_four @ [Destroy (tail_m one_of_four + kPadding 4) (Some x)]\<rparr>"
    "slots_m one_of_four (tail_m one_of_four + kPadding 4) = Some x"
    and sz: "unat (size_q q') + 1 = unat (size_q one_of_four)"
    by blast
  have s1: "size_q one_of_four = 1" by (simp add: size_q_def one_of_four_def)
  from p have q': "q' = \<lparr>capacity_m = 4, slots_m = (\<lambda>_. None), head_m = 1, tail_m = 1,
          events = [Construct 32 7, Destroy 32 (Some 7)]\<rparr>"
    by (simp add: one_of_four_def kPadding_4)
  from sz s1 have "unat (size_q q') = 0" by simp
  then have "size_q q' = 0" by (simp add: unat_eq_0)
  moreover from pop_contract [OF so re reach_none_of_four] e
  have "pop 4 none_of_four = Inl assertion_failed" by blast
  ultimately show ?thesis
    using p(1) s1 so re reach_one_of_four reach_none_of_four unfolding q' by blast
qed

text \<open>
  Claim C5. On a non-empty queue \<^verbatim>\<open>front\<close> returns the pointer to the slot of \<open>tail\<close>,
  which holds a live object, the oldest of the queue; on an empty queue it returns the
  null pointer. It leaves the state as it was, so a second call returns the same.
\<close>

theorem front_peek:
  assumes "queue_inv s q"
  shows "(head_m q \<noteq> tail_m q \<longrightarrow>
           (\<exists>x. front s q = (Some (tail_m q + kPadding s), q) \<and>
                slots_m q (tail_m q + kPadding s) = Some x \<and> hd (contents s q) = Some x)) \<and>
         (head_m q = tail_m q \<longrightarrow> front s q = (None, q)) \<and>
         snd (front s q) = q \<and>
         front s (snd (front s q)) = front s q"
proof (intro conjI impI)
  assume ne: "head_m q \<noteq> tail_m q"
  from tail_slot_live [OF assms ne] front_nonempty [OF ne, of s]
  show "\<exists>x. front s q = (Some (tail_m q + kPadding s), q) \<and>
                slots_m q (tail_m q + kPadding s) = Some x \<and> hd (contents s q) = Some x"
    by blast
next
  assume "head_m q = tail_m q"
  then show "front s q = (None, q)" by (rule front_empty)
next
  show s: "snd (front s q) = q" by (simp add: front_def Let_def)
  show "front s (snd (front s q)) = front s q" by (simp add: s)
qed

theorem front_peek_witness:
  "queue_inv 4 one_of_four \<and>
   front 4 one_of_four = (Some 32, one_of_four) \<and>
   slots_m one_of_four 32 = Some 7 \<and>
   hd (contents 4 one_of_four) = Some 7 \<and>
   front 4 none_of_four = (None, none_of_four)"
proof -
  have ne: "head_m one_of_four \<noteq> tail_m one_of_four" by (simp add: one_of_four_def)
  have e: "head_m none_of_four = tail_m none_of_four" by (simp add: none_of_four_def)
  from front_peek [OF queue_inv_one_of_four] ne
  obtain x where
    "front 4 one_of_four = (Some (tail_m one_of_four + kPadding 4), one_of_four)"
    "slots_m one_of_four (tail_m one_of_four + kPadding 4) = Some x"
    "hd (contents 4 one_of_four) = Some x"
    by blast
  then have "front 4 one_of_four = (Some 32, one_of_four)"
    "slots_m one_of_four 32 = Some 7" "hd (contents 4 one_of_four) = Some 7"
    by (simp_all add: one_of_four_def kPadding_4)
  moreover from front_peek [OF queue_inv_none_of_four] e
  have "front 4 none_of_four = (None, none_of_four)" by blast
  ultimately show ?thesis using queue_inv_one_of_four by blast
qed

subsection \<open>Size\<close>

text \<open>
  Claim C6. Take a queue constructed from an exact request served by an allocator of
  objects, with any values of \<open>head\<close> and \<open>tail\<close> below its capacity. Then \<^verbatim>\<open>size()\<close> is
  \<open>(head - tail) mod capacity\<close>, that is the difference, plus the capacity when the
  difference is negative; it lies from 0 to \<open>capacity - 1\<close>; and \<^verbatim>\<open>empty()\<close> holds
  exactly when \<^verbatim>\<open>size()\<close> is 0, exactly when \<open>head = tail\<close>.
\<close>

theorem size_wraparound:
  assumes "serves_objects malloc" "request_exact s c"
    and "SPSCQueue_ctor s malloc c = Inr q0"
    and "capacity_m q = capacity_m q0" "head_m q < capacity_m q" "tail_m q < capacity_m q"
  shows "uint (size_q q) = (uint (head_m q) - uint (tail_m q)) mod uint (capacity_m q) \<and>
         uint (size_q q) =
              (if uint (head_m q) - uint (tail_m q) < 0
               then uint (head_m q) - uint (tail_m q) + uint (capacity_m q)
               else uint (head_m q) - uint (tail_m q)) \<and>
         0 \<le> uint (size_q q) \<and> uint (size_q q) \<le> uint (capacity_m q) - 1 \<and>
         (empty_q q \<longleftrightarrow> size_q q = 0) \<and>
         (size_q q = 0 \<longleftrightarrow> head_m q = tail_m q)"
proof -
  from sound_capacity [OF assms(1,2,3)] assms(4) have le: "capacity_m q \<le> 2 ^ 63" by simp
  from size_in_state [OF assms(5,6)] le
  have a: "uint (size_q q) = (uint (head_m q) - uint (tail_m q)) mod uint (capacity_m q)"
    "uint (size_q q) =
              (if uint (head_m q) - uint (tail_m q) < 0
               then uint (head_m q) - uint (tail_m q) + uint (capacity_m q)
               else uint (head_m q) - uint (tail_m q))"
    "size_q q < capacity_m q" "empty_q q \<longleftrightarrow> size_q q = 0" "empty_q q \<longleftrightarrow> head_m q = tail_m q"
    by blast+
  from a(3) have b: "uint (size_q q) \<le> uint (capacity_m q) - 1" by (simp add: word_less_def)
  have z: "0 \<le> uint (size_q q)" by simp
  from a(4,5) have e: "size_q q = 0 \<longleftrightarrow> head_m q = tail_m q" by simp
  from a(1,2,4) b z e show ?thesis by blast
qed

theorem size_wraparound_witness:
  "serves_objects small_heap \<and> request_exact 4 4 \<and>
   SPSCQueue_ctor 4 small_heap 4 = Inr none_of_four \<and>
   size_q \<lparr>capacity_m = 4, slots_m = (\<lambda>_. None :: nat option), head_m = 1, tail_m = 3, events = []\<rparr> = 2 \<and>
   \<not> empty_q \<lparr>capacity_m = 4, slots_m = (\<lambda>_. None :: nat option), head_m = 1, tail_m = 3, events = []\<rparr> \<and>
   size_q none_of_four = 0 \<and> empty_q none_of_four"
proof -
  note so = serves_objects_small_heap and re = request_exact_4_4
  let ?q = "\<lparr>capacity_m = 4, slots_m = (\<lambda>_. None :: nat option), head_m = 1, tail_m = 3, events = []\<rparr>"
  have h: "capacity_m ?q = capacity_m none_of_four" "head_m ?q < capacity_m ?q"
    "tail_m ?q < capacity_m ?q"
    by (simp_all add: none_of_four_def)
  from size_wraparound [OF so re small_ctor h]
  have "uint (size_q ?q) = (uint (head_m ?q) - uint (tail_m ?q)) mod uint (capacity_m ?q)"
    and "empty_q ?q \<longleftrightarrow> size_q ?q = 0"
    by blast+
  then have "uint (size_q ?q) = 2" "\<not> empty_q ?q" by auto
  then have 1: "size_q ?q = 2" "\<not> empty_q ?q" by (simp_all add: word_uint_eq_iff)
  have h0: "capacity_m none_of_four = capacity_m none_of_four"
    "head_m none_of_four < capacity_m none_of_four" "tail_m none_of_four < capacity_m none_of_four"
    by (simp_all add: none_of_four_def)
  from size_wraparound [OF so re small_ctor h0]
  have "empty_q none_of_four \<longleftrightarrow> size_q none_of_four = 0"
    "size_q none_of_four = 0 \<longleftrightarrow> head_m none_of_four = tail_m none_of_four"
    by blast+
  then have 2: "size_q none_of_four = 0" "empty_q none_of_four"
    by (simp_all add: none_of_four_def)
  from 1 2 so re small_ctor show ?thesis by blast
qed

subsection \<open>Indices and slots\<close>

text \<open>
  Claim C7. Take a queue constructed with capacity \<open>c\<close> from an exact request, in the
  state after any sequence of calls that returned (none of them, for the state the
  constructor leaves). Then the capacity is still \<open>c\<close> and \<open>head\<close> and \<open>tail\<close> are below
  it; every construction and destruction so far was at a physical slot from \<open>kPadding\<close>
  up to, not including, \<open>kPadding + c\<close>; every live object sits in such a slot; and the
  destructor returns and destroys only in such slots: the padding slots hold no element.
\<close>

theorem storage_range_kept:
  fixes q :: "'a SPSCQueue"
  assumes "request_exact s c"
    and "construct_and_run s malloc c cs = Some (Inr (rs, q))"
  shows "capacity_m q = c \<and> head_m q < capacity_m q \<and> tail_m q < capacity_m q \<and>
     list_all (event_in_storage s c) (events q) \<and>
     (\<forall>p. slots_m q p \<noteq> None \<longrightarrow> in_storage s c p) \<and>
     (\<exists>q'. SPSCQueue_dtor s q = Some (Inr q') \<and> list_all (event_in_storage s c) (events q'))"
proof -
  from reached [OF assms(2)] obtain q0 :: "'a SPSCQueue" where
    c: "SPSCQueue_ctor s malloc c = Inr q0" and r: "run s cs q0 = Some (Inr (rs, q))"
    and inv: "queue_inv s q" and cap: "capacity_m q = c" and e0: "events q0 = []"
    by blast
  from queue_inv_ctor [OF c] have inv0: "queue_inv s q0" and cap0: "capacity_m q0 = c" by simp_all
  from request_exact_bound(2) [OF assms(1)]
  have b0: "unat (capacity_m q0) + unat (kPadding s) \<le> 2 ^ 64"
    and b: "unat (capacity_m q) + unat (kPadding s) \<le> 2 ^ 64"
    by (simp_all add: cap cap0)
  from e0 have l0: "list_all (event_in_storage s (capacity_m q0)) (events q0)" by simp
  from run_events [OF inv0 b0 l0 r] have ev: "list_all (event_in_storage s (capacity_m q)) (events q)" .
  from drain_total [OF inv] obtain qd where "drain s q = Some (Inr qd)" by blast
  then obtain q' where d: "SPSCQueue_dtor s q = Some (Inr q')"
    by (simp add: SPSCQueue_dtor_def)
  from dtor_events [OF inv b ev d] have "list_all (event_in_storage s (capacity_m q)) (events q')" .
  with d have "\<exists>q'. SPSCQueue_dtor s q = Some (Inr q') \<and> list_all (event_in_storage s c) (events q')"
    by (auto simp: cap)
  moreover have "\<forall>p. slots_m q p \<noteq> None \<longrightarrow> in_storage s c p"
    using live_in_storage [OF inv b] by (simp add: live_def cap)
  ultimately show ?thesis using queue_inv_lt [OF inv] ev cap by simp
qed

theorem storage_range_kept_witness:
  "request_exact 4 4 \<and>
   (\<exists>q. construct_and_run 4 small_heap 4 scenario = Some (Inr (scenario_results, q)) \<and>
      capacity_m q = 4 \<and> head_m q < 4 \<and> tail_m q < 4 \<and>
      list_all (event_in_storage 4 4) (events q) \<and>
      (\<exists>q'. SPSCQueue_dtor 4 q = Some (Inr q') \<and> list_all (event_in_storage 4 4) (events q')))"
proof -
  from small_scenario obtain q where
    r: "construct_and_run 4 small_heap 4 scenario = Some (Inr (scenario_results, q))" by blast
  from storage_range_kept [OF request_exact_4_4 r]
  have "capacity_m q = 4 \<and> head_m q < 4 \<and> tail_m q < 4 \<and>
      list_all (event_in_storage 4 4) (events q) \<and>
      (\<exists>q'. SPSCQueue_dtor 4 q = Some (Inr q') \<and> list_all (event_in_storage 4 4) (events q'))"
    by auto
  with r request_exact_4_4 show ?thesis by blast
qed

subsection \<open>Destruction\<close>

text \<open>
  Claim C8. From every state the operations keep to, the destructor returns. It destroys
  the objects of the slots from \<open>tail\<close> to \<open>head\<close>, in that order, each of them live, and
  nothing else, and frees the storage last, when no live object is left. The loop does
  what that many calls of \<^verbatim>\<open>pop\<close> do and ends on an empty queue. On an empty queue it
  destroys nothing and only frees the storage.
\<close>

theorem destructor_drains:
  assumes "queue_inv s q"
  shows "\<exists>q'. SPSCQueue_dtor s q = Some (Inr q') \<and>
      events q' = events q @
        map (\<lambda>i. Destroy (i + kPadding s) (slots_m q (i + kPadding s))) (indices q) @ [Free] \<and>
      destroyed (events q') = destroyed (events q) @ contents s q \<and>
      None \<notin> set (contents s q) \<and>
      live q' = {} \<and> head_m q' = tail_m q' \<and>
      (\<exists>rs qd. run s (replicate (length (indices q)) Pop) q = Some (Inr (rs, qd)) \<and>
         head_m qd = tail_m qd \<and> q' = qd\<lparr>events := events qd @ [Free]\<rparr>) \<and>
      (head_m q = tail_m q \<longrightarrow> events q' = events q @ [Free])"
proof -
  from drain_total [OF assms] obtain qd where
    d: "drain s q = Some (Inr qd)"
    and ev: "events qd = events q @
        map (\<lambda>i. Destroy (i + kPadding s) (slots_m q (i + kPadding s))) (indices q)"
    and rest: "slots_m qd = (\<lambda>_. None)" "head_m qd = head_m q" "tail_m qd = head_m q"
    by blast
  from drain_run [OF assms] d obtain rs where
    r: "run s (replicate (length (indices q)) Pop) q = Some (Inr (rs, qd))"
    by auto
  define q' where "q' = qd\<lparr>events := events qd @ [Free]\<rparr>"
  have dt: "SPSCQueue_dtor s q = Some (Inr q')"
    by (simp add: SPSCQueue_dtor_def d q'_def)
  have e1: "events q' = events q @
        map (\<lambda>i. Destroy (i + kPadding s) (slots_m q (i + kPadding s))) (indices q) @ [Free]"
    by (simp add: q'_def ev)
  have "destroyed (map (\<lambda>i. Destroy (i + kPadding s) (slots_m q (i + kPadding s))) js) =
        map (\<lambda>i. slots_m q (i + kPadding s)) js" for js
    by (induction js) simp_all
  then have e2: "destroyed (events q') = destroyed (events q) @ contents s q"
    by (simp add: e1 contents_def)
  have e3: "live q' = {}" "head_m q' = tail_m q'"
    by (simp_all add: q'_def live_def rest)
  have e4: "events q' = events q @ [Free]" if "head_m q = tail_m q"
    by (simp add: e1 indices_empty [OF that])
  from r rest have e5: "\<exists>rs qd. run s (replicate (length (indices q)) Pop) q = Some (Inr (rs, qd)) \<and>
         head_m qd = tail_m qd \<and> q' = qd\<lparr>events := events qd @ [Free]\<rparr>"
    unfolding q'_def by auto
  from dt e1 e2 e3 e4 e5 contents_live [OF assms] show ?thesis by blast
qed

theorem destructor_drains_witness:
  "queue_inv 4 two_wrapped \<and>
   (\<exists>q'. SPSCQueue_dtor 4 two_wrapped = Some (Inr q') \<and>
      events q' = [Destroy 35 (Some 5), Destroy 32 (Some 6), Free] \<and> live q' = {}) \<and>
   (\<exists>q'. SPSCQueue_dtor 4 none_of_four = Some (Inr q') \<and> events q' = [Free])"
proof -
  from destructor_drains [OF queue_inv_two_wrapped] obtain q' where
    "SPSCQueue_dtor 4 two_wrapped = Some (Inr q')"
    "events q' = events two_wrapped @
        map (\<lambda>i. Destroy (i + kPadding 4) (slots_m two_wrapped (i + kPadding 4)))
          (indices two_wrapped) @ [Free]"
    "live q' = {}"
    by blast
  moreover have "indices two_wrapped = [3, 0]"
    by (simp add: two_wrapped_def indices_def ring_def)
  ultimately have 1: "\<exists>q'. SPSCQueue_dtor 4 two_wrapped = Some (Inr q') \<and>
      events q' = [Destroy 35 (Some 5), Destroy 32 (Some 6), Free] \<and> live q' = {}"
    by (simp add: two_wrapped_def kPadding_4)
  have e: "head_m none_of_four = tail_m none_of_four" by (simp add: none_of_four_def)
  from destructor_drains [OF queue_inv_none_of_four] e obtain q'' where
    "SPSCQueue_dtor 4 none_of_four = Some (Inr q'')" "events q'' = events none_of_four @ [Free]"
    by blast
  then have 2: "\<exists>q'. SPSCQueue_dtor 4 none_of_four = Some (Inr q') \<and> events q' = [Free]"
    by (simp add: none_of_four_def)
  from 1 2 queue_inv_two_wrapped show ?thesis by blast
qed

subsection \<open>Padding and the allocation\<close>

text \<open>
  Claim C9. The padding count \<open>kPadding\<close> is the round-up of 128 over the element size,
  at least 1 and at least a cache line's worth of slots; that part holds, see
  \<open>kPadding_rounds_up\<close>. The block requested from \<^verbatim>\<open>malloc\<close> is to hold
  \<open>capacity + 2 * kPadding\<close> slots. The byte count is computed in \<^verbatim>\<open>size_t\<close> without a
  check and can wrap: for four-byte elements and capacity \<open>2 ^ 62\<close> the constructor asks
  for 256 bytes, room for 64 slots, and succeeds on that answer with
  \<^verbatim>\<open>capacity()\<close> = \<open>2 ^ 62\<close>, where \<open>capacity + 2 * kPadding\<close> is \<open>2 ^ 62 + 64\<close> slots.
  The 33rd \<^verbatim>\<open>emplace\<close> then constructs its element in physical slot 64, the first one past
  that block.
\<close>

theorem alloc_request_wraps:
  "kPadding 4 = 32 \<and>
   (4 :: size_t) * (2 ^ 62 + 2 * kPadding 4) = 256 \<and>
   (SPSCQueue_ctor 4 (\<lambda>n. n = 256) (2 ^ 62) :: failure + nat SPSCQueue) =
     Inr \<lparr>capacity_m = 2 ^ 62, slots_m = (\<lambda>_. None), head_m = 0, tail_m = 0, events = []\<rparr> \<and>
   (256 :: nat) div unat (4 :: size_t) = 64 \<and>
   unat (2 ^ 62 :: size_t) + 2 * unat (kPadding 4) = 4611686018427387968 \<and>
   last_effect (construct_and_run 4 (\<lambda>n. n = 256) (2 ^ 62) (replicate 33 (Emplace (0 :: nat)))) =
     Some (Construct 64 0)"
proof -
  define q0 :: "nat SPSCQueue" where
    "q0 = \<lparr>capacity_m = 2 ^ 62, slots_m = (\<lambda>_. None), head_m = 0, tail_m = 0, events = []\<rparr>"
  have c: "SPSCQueue_ctor 4 (\<lambda>n. n = 256) (2 ^ 62) = Inr q0"
    by (simp add: SPSCQueue_ctor_def kPadding_4 q0_def)
  have "tail_m q0 = 0" "unat (head_m q0) + Suc 32 < unat (capacity_m q0)"
    by (simp_all add: q0_def)
  from emplace_many_last [OF this, of 4 0]
  have "last_effect (run 4 (replicate 33 (Emplace 0)) q0) = Some (Construct 64 0)"
    by (simp add: q0_def kPadding_4)
  then have "last_effect (construct_and_run 4 (\<lambda>n. n = 256) (2 ^ 62) (replicate 33 (Emplace (0 :: nat)))) =
     Some (Construct 64 0)"
    unfolding construct_and_run_def c by simp
  moreover have "(4 :: size_t) * (2 ^ 62 + 2 * kPadding 4) = 256" by (simp add: kPadding_4)
  moreover have "unat (2 ^ 62 :: size_t) + 2 * unat (kPadding 4) = 4611686018427387968"
    by (simp add: kPadding_4)
  ultimately show ?thesis using c kPadding_4 by (simp add: q0_def)
qed

end
